theory Spec2Isabelle
  imports Complex_Main "HOL-Library.Sublist"
begin

section \<open>The tree model (types/mindmap.ts)\<close>

text \<open>
  The optional properties of the TypeScript interfaces are \<open>option\<close> fields: \<open>None\<close> is
  an absent (undefined) property.  A JavaScript string is a list of characters and a JavaScript
  number is a real number: the arithmetic of the layout is read exactly, rounding is not part
  of the model.  The open part of \<open>metadata\<close> (\<open>[key: string]: any\<close>) is an association list.
\<close>

record Metadata =
  inputs :: "string list option"
  outputs :: "string list option"
  notes_md :: "string option"
  tags :: "string list option"
  extra :: "(string \<times> string) list"

datatype MindmapNode = MindmapNode
  (id_node: string) (label: string) (summary: string) (description: string)
  (metadata: "Metadata option") (children: "MindmapNode list option")
  (collapsed: "bool option") (position: "(real \<times> real) option")

record MindmapData =
  root_node :: MindmapNode
  title :: "string option"
  version :: "string option"

text \<open>Reading aids that are not in the source: the children of a node as a list, every node
  of a tree in document order (depth first, children in array order), the ids of a tree, and
  the fields of a node other than its children.\<close>

definition childrenOf :: "MindmapNode \<Rightarrow> MindmapNode list" where
  "childrenOf n = (case children n of None \<Rightarrow> [] | Some xs \<Rightarrow> xs)"

fun nodesOf :: "MindmapNode \<Rightarrow> MindmapNode list" where
  "nodesOf (MindmapNode i l s d m cs col pos) =
     MindmapNode i l s d m cs col pos #
       (case cs of None \<Rightarrow> [] | Some xs \<Rightarrow> concat (map nodesOf xs))"

definition allIds :: "MindmapNode \<Rightarrow> string list" where
  "allIds t = map id_node (nodesOf t)"

definition descendantsOf :: "MindmapNode \<Rightarrow> MindmapNode list" where
  "descendantsOf n = concat (map nodesOf (childrenOf n))"

definition ownFields ::
  "MindmapNode \<Rightarrow> string \<times> string \<times> string \<times> string \<times> Metadata option \<times> bool option \<times> (real \<times> real) option" where
  "ownFields n = (id_node n, label n, summary n, description n, metadata n, collapsed n, position n)"

section \<open>JavaScript primitives\<close>

text \<open>A \<open>string | null\<close> value in a condition is true when it is neither null nor the empty
  string.\<close>

definition truthy :: "string option \<Rightarrow> bool" where
  "truthy v = (case v of None \<Rightarrow> False | Some s \<Rightarrow> s \<noteq> [])"

text \<open>A \<open>for ... of\<close> loop that returns the first result that is not null.\<close>

fun firstSome :: "('a \<Rightarrow> 'b option) \<Rightarrow> 'a list \<Rightarrow> 'b option" where
  "firstSome f [] = None"
| "firstSome f (x # xs) = (case f x of Some y \<Rightarrow> Some y | None \<Rightarrow> firstSome f xs)"

lemma firstSome_cong [fundef_cong]:
  "xs = ys \<Longrightarrow> (\<And>x. x \<in> set ys \<Longrightarrow> f x = g x) \<Longrightarrow> firstSome f xs = firstSome g ys"
  by (induction ys arbitrary: xs) (auto split: option.splits)

text \<open>\<open>.filter(child => child !== null)\<close>\<close>

fun filterNonNull :: "'a option list \<Rightarrow> 'a list" where
  "filterNonNull [] = []"
| "filterNonNull (None # xs) = filterNonNull xs"
| "filterNonNull (Some x # xs) = x # filterNonNull xs"

text \<open>Strings are read as ASCII text: \<open>toLowerCase\<close> maps A-Z to a-z, \<open>trim\<close> removes
  space, tab, line feed, vertical tab, form feed and carriage return at both ends, and
  \<open>includes\<close> is the search for a contiguous substring.\<close>

definition lowerChar :: "char \<Rightarrow> char" where
  "lowerChar c = (let n = (of_char c :: nat) in if 65 \<le> n \<and> n \<le> 90 then char_of (n + 32) else c)"

definition toLowerCase :: "string \<Rightarrow> string" where
  "toLowerCase s = map lowerChar s"

definition isWhitespace :: "char \<Rightarrow> bool" where
  "isWhitespace c = ((of_char c :: nat) \<in> {9, 10, 11, 12, 13, 32})"

definition trim :: "string \<Rightarrow> string" where
  "trim s = rev (dropWhile isWhitespace (rev (dropWhile isWhitespace s)))"

fun includes_str :: "string \<Rightarrow> string \<Rightarrow> bool" where
  "includes_str [] q = (q = [])"
| "includes_str (c # cs) q = (prefix q (c # cs) \<or> includes_str cs q)"

section \<open>Tree helpers of the Mindmap component\<close>

fun findNode :: "string \<Rightarrow> MindmapNode \<Rightarrow> MindmapNode option" where
  "findNode nodeId (MindmapNode i l s d m cs col pos) =
     (if i = nodeId then Some (MindmapNode i l s d m cs col pos)
      else case cs of None \<Rightarrow> None | Some xs \<Rightarrow> firstSome (findNode nodeId) xs)"

text \<open>\<open>findParent\<close>, local to \<open>onNodeClick\<close>; \<open>parent\<close> is the node the search came from.\<close>

fun findParent :: "MindmapNode \<Rightarrow> string \<Rightarrow> MindmapNode option \<Rightarrow> MindmapNode option" where
  "findParent (MindmapNode i l s d m cs col pos) targetId parent =
     (if i = targetId then parent
      else case cs of
        None \<Rightarrow> None
      | Some xs \<Rightarrow>
          firstSome (\<lambda>child. findParent child targetId (Some (MindmapNode i l s d m cs col pos))) xs)"




text \<open>\<open>deleteNodeFromTree\<close>, local to \<open>handleDeleteNode\<close>; \<open>None\<close> is null.\<close>

fun deleteNodeFromTree :: "MindmapNode \<Rightarrow> string \<Rightarrow> MindmapNode option" where
  "deleteNodeFromTree (MindmapNode i l s d m cs col pos) targetId =
     (if i = targetId then None
      else case cs of
        None \<Rightarrow> Some (MindmapNode i l s d m cs col pos)
      | Some xs \<Rightarrow>
          Some (MindmapNode i l s d m
            (Some (filterNonNull (map (\<lambda>child. deleteNodeFromTree child targetId) xs))) col pos))"

section \<open>The state of the Mindmap component and its handlers\<close>

record State =
  collapsedNodes :: "string set"
  selectedNodeId :: "string option"
  hoveredNodeId :: "string option"
  highlightedNodes :: "string set"
  mindmapData :: MindmapData
  showSidePanel :: bool
  searchQuery :: string

text \<open>Each handler is the function from the state it reads to the state its setters leave.
  The handlers are those of the current component; the repository also holds an older copy
  of it, without search, adding and deleting, whose click handler does not look for the
  parent.\<close>

definition handleDeleteNode :: "State \<Rightarrow> string \<Rightarrow> State" where
  "handleDeleteNode st nodeId =
     (if nodeId = id_node (root_node (mindmapData st)) then st
      else case deleteNodeFromTree (root_node (mindmapData st)) nodeId of
        None \<Rightarrow> st
      | Some updatedRoot \<Rightarrow>
          st\<lparr>mindmapData := (mindmapData st)\<lparr>root_node := updatedRoot\<rparr>,
             selectedNodeId := None,
             showSidePanel := False,
             highlightedNodes := {}\<rparr>)"

text \<open>\<open>onNodeClick\<close> receives the node of the flow that was clicked; its \<open>data.originalNode\<close>
  is the node of the tree it was made from.  The flow's node and edge types follow.\<close>

record NodeData =
  data_label :: string
  data_summary :: string
  data_description :: string
  data_metadata :: "Metadata option"
  originalNode :: MindmapNode

record FlowNode =
  nodeId :: string
  flow_x :: real
  flow_y :: real
  data :: NodeData

text \<open>An edge also has the constant fields \<open>type: 'smoothstep'\<close> and \<open>animated: false\<close>.\<close>

record Edge =
  edge_id :: string
  source :: string
  target :: string

definition onNodeClick :: "State \<Rightarrow> FlowNode \<Rightarrow> State" where
  "onNodeClick st node =
     (let nodeData = originalNode (data node);
          newCollapsed =
            (if (case children nodeData of None \<Rightarrow> False | Some xs \<Rightarrow> length xs > 0)
             then (if nodeId node \<in> collapsedNodes st
                   then collapsedNodes st - {nodeId node}
                   else insert (nodeId node) (collapsedNodes st))
             else collapsedNodes st);
          wasAlreadySelected = (selectedNodeId st = Some (nodeId node));
          newShow = (if \<not> wasAlreadySelected \<or> \<not> showSidePanel st then True else showSidePanel st);
          relatedNodes =
            {nodeId node} \<union> (case children nodeData of None \<Rightarrow> {} | Some xs \<Rightarrow> set (map id_node xs));
          parent = findParent (root_node (mindmapData st)) (nodeId node) None;
          relatedNodes2 =
            (case parent of None \<Rightarrow> relatedNodes | Some p \<Rightarrow> insert (id_node p) relatedNodes)
      in st\<lparr>collapsedNodes := newCollapsed,
            selectedNodeId := Some (nodeId node),
            showSidePanel := newShow,
            highlightedNodes := relatedNodes2\<rparr>)"

text \<open>\<open>searchInNode\<close>, local to \<open>searchNodes\<close>: the ids it pushes to \<open>results\<close>, in order.\<close>

fun searchInNode :: "string \<Rightarrow> MindmapNode \<Rightarrow> string list" where
  "searchInNode searchLower (MindmapNode i l s d m cs col pos) =
     (let matchesLabel = includes_str (toLowerCase l) searchLower;
          matchesSummary = includes_str (toLowerCase s) searchLower;
          matchesDescription = includes_str (toLowerCase d) searchLower;
          matchesTags =
            (case m of
               None \<Rightarrow> False
             | Some md \<Rightarrow>
                 (case tags md of
                    None \<Rightarrow> False
                  | Some ts \<Rightarrow> list_ex (\<lambda>tag. includes_str (toLowerCase tag) searchLower) ts))
      in (if matchesLabel \<or> matchesSummary \<or> matchesDescription \<or> matchesTags then [i] else []) @
         (case cs of None \<Rightarrow> [] | Some xs \<Rightarrow> concat (map (searchInNode searchLower) xs)))"

definition searchNodes :: "State \<Rightarrow> string \<Rightarrow> string list" where
  "searchNodes st query =
     (if trim query = [] then []
      else searchInNode (toLowerCase query) (root_node (mindmapData st)))"

text \<open>The effect that keeps the highlights in step with the search box, and the change of
  the query that makes it run.\<close>

definition searchEffect :: "State \<Rightarrow> State" where
  "searchEffect st =
     (if trim (searchQuery st) \<noteq> []
      then st\<lparr>highlightedNodes := set (searchNodes st (searchQuery st))\<rparr>
      else if \<not> truthy (selectedNodeId st) then st\<lparr>highlightedNodes := {}\<rparr>
      else st)"

definition onSearchChange :: "State \<Rightarrow> string \<Rightarrow> State" where
  "onSearchChange st query = searchEffect (st\<lparr>searchQuery := query\<rparr>)"


section \<open>The layout (utils/mindmapConverter.ts)\<close>

text \<open>The converter that the component imports.  The repository also holds an older copy of
  it, with the one spacing of 350 at every level and a fixed fan; it is not modelled.\<close>

definition BASE_RADIUS :: real where "BASE_RADIUS = 250"
definition LEVEL_SCALE :: real where "LEVEL_SCALE = 0.85"
definition MIN_SPACING :: real where "MIN_SPACING = 180"
definition MAX_ANGLE_SPAN :: real where "MAX_ANGLE_SPAN = pi * 1.6"

text \<open>The placement of one node, the first half of the body of \<open>calculatePositions\<close>: the
  values of \<open>x\<close>, \<open>y\<close> and \<open>angle\<close> after the \<open>if (level === 0)\<close> statement.\<close>

definition placeNode :: "nat \<Rightarrow> nat \<Rightarrow> real \<Rightarrow> real \<Rightarrow> nat \<Rightarrow> real \<Rightarrow> real \<times> real \<times> real" where
  "placeNode level index parentX parentY siblingCount parentAngle =
     (if level = 0 then (0, 0, 0)
      else
        let radius = BASE_RADIUS * LEVEL_SCALE ^ (level - 1);
            angle =
              (if level = 1 then (real index / real siblingCount) * pi * 2
               else
                 let angleSpan = min MAX_ANGLE_SPAN (real siblingCount * (MIN_SPACING / radius));
                     startAngle = parentAngle - angleSpan / 2
                 in if siblingCount = 1 then parentAngle
                    else startAngle + (real index / (real siblingCount - 1)) * angleSpan)
        in (parentX + cos angle * radius, parentY + sin angle * radius, angle))"

lemma size_child_le: "x \<in> set xs \<Longrightarrow> size x \<le> size_list size xs"
  by (induction xs) auto

text \<open>\<open>calculatePositions\<close> pushes to the arrays \<open>nodes\<close> and \<open>edges\<close> of the enclosing
  function; the model returns what one call pushes, in order.  The test \<open>if (parentId)\<close>
  fails for null and for the empty string.\<close>

function calculatePositions ::
  "string set \<Rightarrow> MindmapNode \<Rightarrow> nat \<Rightarrow> nat \<Rightarrow> real \<Rightarrow> real \<Rightarrow> nat \<Rightarrow> real \<Rightarrow> string option
     \<Rightarrow> FlowNode list \<times> Edge list" where
  "calculatePositions collapsedNodes' (MindmapNode i l s d m cs col pos)
       level index parentX parentY siblingCount parentAngle parentId =
     (let node = MindmapNode i l s d m cs col pos;
          isCollapsed = (i \<in> collapsedNodes');
          hasChildren = (case cs of None \<Rightarrow> False | Some xs \<Rightarrow> length xs > 0 \<and> \<not> isCollapsed);
          (x, y, angle) = placeNode level index parentX parentY siblingCount parentAngle;
          nodes = [\<lparr>nodeId = i, flow_x = x, flow_y = y,
                    data = \<lparr>data_label = l, data_summary = s, data_description = d,
                            data_metadata = m, originalNode = node\<rparr>\<rparr>];
          edges = (case parentId of
                     None \<Rightarrow> []
                   | Some p \<Rightarrow>
                       if p \<noteq> [] then [\<lparr>edge_id = ''edge-'' @ p @ ''-'' @ i, source = p, target = i\<rparr>]
                       else [])
      in if hasChildren then
           (case cs of
              None \<Rightarrow> (nodes, edges)
            | Some xs \<Rightarrow>
                let childCount = length xs;
                    results = map (\<lambda>(childIndex, child).
                                calculatePositions collapsedNodes' child (level + 1) childIndex x y
                                  childCount angle (Some i))
                              (zip [0..<childCount] xs)
                in (nodes @ concat (map fst results), edges @ concat (map snd results)))
         else (nodes, edges))"
  by pat_completeness auto
termination
  by (relation "measure (\<lambda>(C, n, r). size n)")
     (auto dest!: set_zip_rightD[THEN size_child_le])

definition convertMindmapToFlow :: "MindmapNode \<Rightarrow> string set \<Rightarrow> FlowNode list \<times> Edge list" where
  "convertMindmapToFlow rootNode collapsedNodes' =
     calculatePositions collapsedNodes' rootNode 0 0 0 0 1 0 None"

text \<open>The calls of \<open>calculatePositions\<close>, each with its arguments.  They are not part
  of the output; they are what the statements about levels and angles speak of.
  \<open>callX\<close>, \<open>callY\<close> and \<open>callAngle\<close> are the values of \<open>x\<close>, \<open>y\<close> and \<open>angle\<close> in a
  call, \<open>pushedNode\<close> and \<open>pushedEdge\<close> what the call pushes, \<open>childCalls\<close> the calls that
  its \<open>forEach\<close> makes, and \<open>callsFrom\<close> every call that is made from it, itself
  first, in the order of the calls.\<close>

record Call =
  c_node :: MindmapNode
  c_level :: nat
  c_index :: nat
  c_parentX :: real
  c_parentY :: real
  c_siblingCount :: nat
  c_parentAngle :: real
  c_parentId :: "string option"

definition callX :: "Call \<Rightarrow> real" where
  "callX c = fst (placeNode (c_level c) (c_index c) (c_parentX c) (c_parentY c)
                    (c_siblingCount c) (c_parentAngle c))"

definition callY :: "Call \<Rightarrow> real" where
  "callY c = fst (snd (placeNode (c_level c) (c_index c) (c_parentX c) (c_parentY c)
                    (c_siblingCount c) (c_parentAngle c)))"

definition callAngle :: "Call \<Rightarrow> real" where
  "callAngle c = snd (snd (placeNode (c_level c) (c_index c) (c_parentX c) (c_parentY c)
                    (c_siblingCount c) (c_parentAngle c)))"

definition pushedNode :: "Call \<Rightarrow> FlowNode" where
  "pushedNode c =
     \<lparr>nodeId = id_node (c_node c), flow_x = callX c, flow_y = callY c,
      data = \<lparr>data_label = label (c_node c), data_summary = summary (c_node c),
              data_description = description (c_node c), data_metadata = metadata (c_node c),
              originalNode = c_node c\<rparr>\<rparr>"

definition pushedEdge :: "Call \<Rightarrow> Edge list" where
  "pushedEdge c =
     (case c_parentId c of
        None \<Rightarrow> []
      | Some p \<Rightarrow>
          if p \<noteq> []
          then [\<lparr>edge_id = ''edge-'' @ p @ ''-'' @ id_node (c_node c), source = p,
                 target = id_node (c_node c)\<rparr>]
          else [])"

definition childCalls :: "string set \<Rightarrow> Call \<Rightarrow> Call list" where
  "childCalls collapsedNodes' q =
     (if id_node (c_node q) \<in> collapsedNodes' then []
      else map (\<lambda>childIndex.
             \<lparr>c_node = childrenOf (c_node q) ! childIndex, c_level = c_level q + 1,
              c_index = childIndex, c_parentX = callX q, c_parentY = callY q,
              c_siblingCount = length (childrenOf (c_node q)), c_parentAngle = callAngle q,
              c_parentId = Some (id_node (c_node q))\<rparr>)
           [0..<length (childrenOf (c_node q))])"

lemma size_childrenOf: "x \<in> set (childrenOf n) \<Longrightarrow> size x < size n"
  by (cases n) (auto simp: childrenOf_def split: option.splits dest!: size_child_le)

function callsFrom :: "string set \<Rightarrow> Call \<Rightarrow> Call list" where
  "callsFrom collapsedNodes' q =
     q # concat (map (callsFrom collapsedNodes') (childCalls collapsedNodes' q))"
  by pat_completeness auto
termination
  by (relation "measure (\<lambda>(C, q). size (c_node q))")
     (auto simp: childCalls_def split: if_splits intro!: size_childrenOf)

declare callsFrom.simps [simp del]

definition rootCall :: "MindmapNode \<Rightarrow> Call" where
  "rootCall rootNode =
     \<lparr>c_node = rootNode, c_level = 0, c_index = 0, c_parentX = 0, c_parentY = 0,
      c_siblingCount = 1, c_parentAngle = 0, c_parentId = None\<rparr>"

definition levelRadius :: "nat \<Rightarrow> real" where
  "levelRadius level = BASE_RADIUS * LEVEL_SCALE ^ (level - 1)"

definition distance :: "real \<times> real \<Rightarrow> real \<times> real \<Rightarrow> real" where
  "distance p q = sqrt ((fst p - fst q)\<^sup>2 + (snd p - snd q)\<^sup>2)"

section \<open>The search as the specification words it\<close>

text \<open>From the words of the specification, not from the source: a text contains the query as a
  case-insensitive substring, and a node matches a query when its label, summary,
  description or one of its tags does.\<close>

definition containsIgnoreCase :: "string \<Rightarrow> string \<Rightarrow> bool" where
  "containsIgnoreCase txt query = (\<exists>pre post. toLowerCase txt = pre @ toLowerCase query @ post)"

definition matchesQuery :: "MindmapNode \<Rightarrow> string \<Rightarrow> bool" where
  "matchesQuery n query =
     (containsIgnoreCase (label n) query \<or> containsIgnoreCase (summary n) query \<or>
      containsIgnoreCase (description n) query \<or>
      (\<exists>md ts tag. metadata n = Some md \<and> tags md = Some ts \<and> tag \<in> set ts \<and>
         containsIgnoreCase tag query))"

text \<open>From the words of the specification: the span of a fan of \<open>siblingCount\<close> siblings
  at a level, \<open>min(MAX_ANGLE_SPAN, siblingCount * MIN_SPACING / radius)\<close>.\<close>

definition fanSpan :: "nat \<Rightarrow> nat \<Rightarrow> real" where
  "fanSpan siblingCount level =
     min MAX_ANGLE_SPAN (real siblingCount * MIN_SPACING / levelRadius level)"

section \<open>Example documents\<close>

definition exampleTree :: MindmapNode where
  "exampleTree =
     MindmapNode ''r'' ''Root'' ''s'' ''d'' None (Some
       [MindmapNode ''a'' ''A'' ''s'' ''d'' None (Some
          [MindmapNode ''b'' ''B'' ''s'' ''d'' None None None None]) None None,
        MindmapNode ''c'' ''C'' ''s'' ''d'' None (Some []) None None]) None None"

definition exampleState :: State where
  "exampleState =
     \<lparr>collapsedNodes = {}, selectedNodeId = Some ''c'', hoveredNodeId = None,
      highlightedNodes = {''c'', ''r''},
      mindmapData = \<lparr>root_node = exampleTree, title = None, version = None\<rparr>,
      showSidePanel = True, searchQuery = []\<rparr>"







text \<open>A document whose root has a space in its label and the tags \<open>library\<close> and \<open>ui\<close>,
  with nothing selected; and a document whose root has the empty string as its id, after a
  click on the root.\<close>

definition libraryNode :: MindmapNode where
  "libraryNode =
     MindmapNode ''lib'' ''React Flow'' ''graph'' ''rendering'' (Some
       \<lparr>inputs = None, outputs = None, notes_md = None, tags = Some [''library'', ''ui''],
        extra = []\<rparr>) None None None"

definition libraryState :: State where
  "libraryState =
     \<lparr>collapsedNodes = {}, selectedNodeId = None, hoveredNodeId = None,
      highlightedNodes = {},
      mindmapData = \<lparr>root_node = libraryNode, title = None, version = None\<rparr>,
      showSidePanel = False, searchQuery = []\<rparr>"

definition emptyIdState :: State where
  "emptyIdState =
     \<lparr>collapsedNodes = {}, selectedNodeId = Some [], hoveredNodeId = None,
      highlightedNodes = {[]},
      mindmapData = \<lparr>root_node = MindmapNode [] ''Root'' ''s'' ''d'' None None None None,
                     title = None, version = None\<rparr>,
      showSidePanel = True, searchQuery = []\<rparr>"

text \<open>The state before that click and the node of the flow that is clicked.\<close>

definition emptyIdInitial :: State where
  "emptyIdInitial =
     \<lparr>collapsedNodes = {}, selectedNodeId = None, hoveredNodeId = None,
      highlightedNodes = {},
      mindmapData = \<lparr>root_node = MindmapNode [] ''Root'' ''s'' ''d'' None None None None,
                     title = None, version = None\<rparr>,
      showSidePanel = False, searchQuery = []\<rparr>"

definition emptyIdFlowNode :: FlowNode where
  "emptyIdFlowNode =
     \<lparr>nodeId = [], flow_x = 0, flow_y = 0,
      data = \<lparr>data_label = ''Root'', data_summary = ''s'', data_description = ''d'',
              data_metadata = None,
              originalNode = MindmapNode [] ''Root'' ''s'' ''d'' None None None None\<rparr>\<rparr>"

text \<open>A chain \<open>r\<close>, \<open>a\<close>, \<open>b\<close>, \<open>e\<close> of only children, and the document of the
  specification's scenario: a root \<open>r\<close> with the children \<open>a\<close>, \<open>b\<close> and \<open>c\<close>.\<close>

definition chainNodeE :: MindmapNode where
  "chainNodeE = MindmapNode ''e'' ''E'' ''s'' ''d'' None None None None"

definition chainNodeB :: MindmapNode where
  "chainNodeB = MindmapNode ''b'' ''B'' ''s'' ''d'' None (Some [chainNodeE]) None None"

definition chainNodeA :: MindmapNode where
  "chainNodeA = MindmapNode ''a'' ''A'' ''s'' ''d'' None (Some [chainNodeB]) None None"

definition chainTree :: MindmapNode where
  "chainTree = MindmapNode ''r'' ''Root'' ''s'' ''d'' None (Some [chainNodeA]) None None"

definition scenarioTree :: MindmapNode where
  "scenarioTree =
     MindmapNode ''r'' ''Root'' [] [] None (Some
       [MindmapNode ''a'' [] [] [] None None None None,
        MindmapNode ''b'' [] [] [] None None None None,
        MindmapNode ''c'' [] [] [] None None None None]) None None"

text \<open>A document whose root has the empty string as its id and one child.\<close>

definition emptyRootTree :: MindmapNode where
  "emptyRootTree =
     MindmapNode [] ''Root'' ''s'' ''d'' None (Some
       [MindmapNode ''x'' ''X'' ''s'' ''d'' None None None None]) None None"

text \<open>The calls that the layout of \<open>chainTree\<close> makes for \<open>a\<close> and for \<open>b\<close>, and the call
  that the layout of \<open>exampleTree\<close> makes for \<open>a\<close>, which has two children in \<open>fanTree\<close>.\<close>

definition chainCallA :: Call where
  "chainCallA =
     \<lparr>c_node = chainNodeA, c_level = 1, c_index = 0, c_parentX = 0, c_parentY = 0,
      c_siblingCount = 1, c_parentAngle = 0, c_parentId = Some ''r''\<rparr>"

definition chainCallB :: Call where
  "chainCallB =
     \<lparr>c_node = chainNodeB, c_level = 2, c_index = 0, c_parentX = 250, c_parentY = 0,
      c_siblingCount = 1, c_parentAngle = 0, c_parentId = Some ''a''\<rparr>"

definition fanNodeA :: MindmapNode where
  "fanNodeA =
     MindmapNode ''a'' ''A'' ''s'' ''d'' None (Some
       [MindmapNode ''b'' ''B'' ''s'' ''d'' None None None None,
        MindmapNode ''c'' ''C'' ''s'' ''d'' None None None None]) None None"

definition fanTree :: MindmapNode where
  "fanTree = MindmapNode ''r'' ''Root'' ''s'' ''d'' None (Some [fanNodeA]) None None"

definition fanCallA :: Call where
  "fanCallA =
     \<lparr>c_node = fanNodeA, c_level = 1, c_index = 0, c_parentX = 0, c_parentY = 0,
      c_siblingCount = 1, c_parentAngle = 0, c_parentId = Some ''r''\<rparr>"

definition fanCallC :: Call where
  "fanCallC =
     \<lparr>c_node = MindmapNode ''c'' ''C'' ''s'' ''d'' None None None None, c_level = 2,
      c_index = 1, c_parentX = 250, c_parentY = 0,
      c_siblingCount = 2, c_parentAngle = 0, c_parentId = Some ''a''\<rparr>"

section \<open>Facts about trees, ids and findNode\<close>

lemma firstSome_None_iff: "firstSome f xs = None \<longleftrightarrow> (\<forall>x\<in>set xs. f x = None)"
  by (induction xs) (auto split: option.splits)

lemma firstSome_unique:
  "x \<in> set xs \<Longrightarrow> f x = Some y \<Longrightarrow> (\<forall>z\<in>set xs. z \<noteq> x \<longrightarrow> f z = None) \<Longrightarrow> firstSome f xs = Some y"
  by (induction xs) (auto split: option.splits)

lemma firstSome_SomeD: "firstSome f xs = Some y \<Longrightarrow> \<exists>x\<in>set xs. f x = Some y"
  by (induction xs) (auto split: option.splits)

lemma set_filterNonNull: "set (filterNonNull ys) = {y. Some y \<in> set ys}"
  by (induction ys rule: filterNonNull.induct) auto

lemma nodesOf_self: "t \<in> set (nodesOf t)"
  by (cases t) simp

lemma nodesOf_children: "c \<in> set (childrenOf t) \<Longrightarrow> set (nodesOf c) \<subseteq> set (nodesOf t)"
  by (cases t) (auto simp: childrenOf_def split: option.splits)

lemma nodesOf_cases:
  "m \<in> set (nodesOf t) \<Longrightarrow> m = t \<or> (\<exists>c\<in>set (childrenOf t). m \<in> set (nodesOf c))"
  by (cases t) (auto simp: childrenOf_def split: option.splits)

lemma nodesOf_trans: "x \<in> set (nodesOf t) \<Longrightarrow> set (nodesOf x) \<subseteq> set (nodesOf t)"
proof (induction t rule: nodesOf.induct)
  case (1 i l s d m cs col pos)
  let ?t = "MindmapNode i l s d m cs col pos"
  from "1.prems" consider "x = ?t" | c where "c \<in> set (childrenOf ?t)" "x \<in> set (nodesOf c)"
    using nodesOf_cases by blast
  then show ?case
  proof cases
    case 1
    then show ?thesis by simp
  next
    case 2
    then obtain xs where xs: "cs = Some xs" "c \<in> set xs"
      by (auto simp: childrenOf_def split: option.splits)
    with 2 "1.IH" have "set (nodesOf x) \<subseteq> set (nodesOf c)" by blast
    with nodesOf_children[OF 2(1)] show ?thesis by blast
  qed
qed

lemma allIds_simp:
  "allIds (MindmapNode i l s d m cs col pos) =
     i # (case cs of None \<Rightarrow> [] | Some xs \<Rightarrow> concat (map allIds xs))"
  by (cases cs) (simp_all add: allIds_def[abs_def] map_concat comp_def)

lemma distinct_concat_disjoint:
  "distinct (concat (map f xs)) \<Longrightarrow> c \<in> set xs \<Longrightarrow> c2 \<in> set xs \<Longrightarrow> c \<noteq> c2 \<Longrightarrow>
     set (f c) \<inter> set (f c2) = {}"
  by (induction xs) auto

lemma distinct_concat_each:
  "distinct (concat (map f xs)) \<Longrightarrow> c \<in> set xs \<Longrightarrow> distinct (f c)"
  by (induction xs) auto

lemma findNode_None_iff: "findNode j t = None \<longleftrightarrow> j \<notin> set (allIds t)"
  by (induction j t rule: findNode.induct)
     (auto simp: allIds_simp firstSome_None_iff split: option.splits)

lemma findNode_Some_id: "findNode j t = Some n \<Longrightarrow> id_node n = j"
proof (induction j t rule: findNode.induct)
  case (1 nodeId i l s d m cs col pos)
  show ?case
  proof (cases "i = nodeId")
    case True
    with "1.prems" show ?thesis by auto
  next
    case False
    with "1.prems" obtain xs where xs: "cs = Some xs" "firstSome (findNode nodeId) xs = Some n"
      by (auto split: option.splits)
    then obtain x where "x \<in> set xs" "findNode nodeId x = Some n"
      by (blast dest: firstSome_SomeD)
    with "1.IH"[OF False xs(1)] show ?thesis by blast
  qed
qed

lemma findNode_Some_mem: "findNode j t = Some n \<Longrightarrow> n \<in> set (nodesOf t)"
proof (induction j t rule: findNode.induct)
  case (1 nodeId i l s d m cs col pos)
  show ?case
  proof (cases "i = nodeId")
    case True
    with "1.prems" show ?thesis by auto
  next
    case False
    with "1.prems" obtain xs where xs: "cs = Some xs" "firstSome (findNode nodeId) xs = Some n"
      by (auto split: option.splits)
    then obtain x where x: "x \<in> set xs" "findNode nodeId x = Some n"
      by (blast dest: firstSome_SomeD)
    with "1.IH"[OF False xs(1)] have "n \<in> set (nodesOf x)" by blast
    with x(1) xs(1) show ?thesis by auto
  qed
qed

lemma id_in_allIds: "m \<in> set (nodesOf t) \<Longrightarrow> id_node m \<in> set (allIds t)"
  by (simp add: allIds_def)

lemma findNode_unique:
  "distinct (allIds t) \<Longrightarrow> m \<in> set (nodesOf t) \<Longrightarrow> findNode (id_node m) t = Some m"
proof (induction t arbitrary: m rule: nodesOf.induct)
  case (1 i l s d md cs col pos)
  let ?t = "MindmapNode i l s d md cs col pos"
  show ?case
  proof (cases "m = ?t")
    case True
    then show ?thesis by simp
  next
    case False
    with "1.prems"(2) obtain xs c where xs: "cs = Some xs" "c \<in> set xs" "m \<in> set (nodesOf c)"
      by (auto split: option.splits)
    from "1.prems"(1) xs have dc: "distinct (concat (map allIds xs))" and ni: "i \<notin> set (concat (map allIds xs))"
      by (auto simp: allIds_simp)
    have mc: "id_node m \<in> set (allIds c)" using xs(3) by (rule id_in_allIds)
    with ni xs(2) have neq: "i \<noteq> id_node m" by auto
    have "distinct (allIds c)" using dc xs(2) by (rule distinct_concat_each)
    with "1.IH" xs have fc: "findNode (id_node m) c = Some m" by blast
    have "\<forall>z\<in>set xs. z \<noteq> c \<longrightarrow> findNode (id_node m) z = None"
    proof (intro ballI impI)
      fix z assume "z \<in> set xs" "z \<noteq> c"
      with distinct_concat_disjoint[OF dc xs(2)] have "set (allIds c) \<inter> set (allIds z) = {}" by blast
      with mc show "findNode (id_node m) z = None" by (auto simp: findNode_None_iff)
    qed
    with fc xs(2) have "firstSome (findNode (id_node m)) xs = Some m"
      by (intro firstSome_unique) auto
    with neq xs(1) show ?thesis by simp
  qed
qed

lemma deleteNode_None_iff: "deleteNodeFromTree t j = None \<longleftrightarrow> j = id_node t"
  by (cases t) (auto split: option.splits)

lemma subseq_concat_filterNonNull:
  "(\<And>x y. x \<in> set xs \<Longrightarrow> f x = Some y \<Longrightarrow> subseq (g y) (g x)) \<Longrightarrow>
     subseq (concat (map g (filterNonNull (map f xs)))) (concat (map g xs))"
proof (induction xs)
  case Nil
  then show ?case by simp
next
  case (Cons x xs)
  then have ih: "subseq (concat (map g (filterNonNull (map f xs)))) (concat (map g xs))" by simp
  show ?case
  proof (cases "f x")
    case None
    with ih show ?thesis by (simp add: list_emb_append2)
  next
    case (Some y)
    with Cons.prems have "subseq (g y) (g x)" by simp
    with ih Some show ?thesis by (simp add: list_emb_append_mono)
  qed
qed

lemma deleteNode_subseq:
  "deleteNodeFromTree t j = Some t' \<Longrightarrow> subseq (allIds t') (allIds t)"
proof (induction t j arbitrary: t' rule: deleteNodeFromTree.induct)
  case (1 i l s d m cs col pos targetId)
  show ?case
  proof (cases cs)
    case None
    with "1.prems" show ?thesis by (auto split: if_splits)
  next
    case (Some xs)
    with "1.prems" have neq: "i \<noteq> targetId" and
      t': "t' = MindmapNode i l s d m (Some (filterNonNull (map (\<lambda>child. deleteNodeFromTree child targetId) xs))) col pos"
      by (auto split: if_splits)
    have "subseq (concat (map allIds (filterNonNull (map (\<lambda>child. deleteNodeFromTree child targetId) xs))))
            (concat (map allIds xs))"
      using "1.IH"[OF neq Some] by (intro subseq_concat_filterNonNull) blast
    with t' Some show ?thesis by (simp add: allIds_simp)
  qed
qed

lemma deleteNode_target_gone:
  "deleteNodeFromTree t j = Some t' \<Longrightarrow> j \<notin> set (allIds t')"
proof (induction t j arbitrary: t' rule: deleteNodeFromTree.induct)
  case (1 i l s d m cs col pos targetId)
  show ?case
  proof (cases cs)
    case None
    with "1.prems" show ?thesis by (auto simp: allIds_simp split: if_splits)
  next
    case (Some xs)
    with "1.prems" have neq: "i \<noteq> targetId" and
      t': "t' = MindmapNode i l s d m (Some (filterNonNull (map (\<lambda>child. deleteNodeFromTree child targetId) xs))) col pos"
      by (auto split: if_splits)
    from "1.IH"[OF neq Some] t' neq show ?thesis
      by (auto simp: allIds_simp set_filterNonNull)
  qed
qed

section \<open>Deleting a node\<close>

lemma deleteNode_ids_subset:
  "deleteNodeFromTree t j = Some t' \<Longrightarrow> set (allIds t') \<subseteq> set (allIds t)"
  by (drule deleteNode_subseq) (auto dest: list_emb_set)

lemma deleteNode_distinct:
  "distinct (allIds t) \<Longrightarrow> deleteNodeFromTree t j = Some t' \<Longrightarrow> distinct (allIds t')"
  by (drule deleteNode_subseq) (auto intro: subseqs_distinctD simp: set_subseqs_eq)

lemma deleteNode_subtree_gone:
  "distinct (allIds t) \<Longrightarrow> deleteNodeFromTree t j = Some t' \<Longrightarrow> x \<in> set (nodesOf t) \<Longrightarrow>
     id_node x = j \<Longrightarrow> k \<in> set (allIds x) \<Longrightarrow> k \<notin> set (allIds t')"
proof (induction t j arbitrary: t' rule: deleteNodeFromTree.induct)
  case (1 i l s d m cs col pos targetId)
  let ?t = "MindmapNode i l s d m cs col pos"
  let ?del = "\<lambda>child. deleteNodeFromTree child targetId"
  from "1.prems"(2) have neq: "i \<noteq> targetId" by (auto split: if_splits)
  with "1.prems"(3,4) obtain xs c where xs: "cs = Some xs" "c \<in> set xs" "x \<in> set (nodesOf c)"
    by (auto split: option.splits)
  from "1.prems"(2) neq xs(1) have t': "t' = MindmapNode i l s d m (Some (filterNonNull (map ?del xs))) col pos"
    by simp
  from "1.prems"(1) xs(1) have dc: "distinct (concat (map allIds xs))" and ni: "i \<notin> set (concat (map allIds xs))"
    by (auto simp: allIds_simp)
  have kc: "k \<in> set (allIds c)"
    using nodesOf_trans[OF xs(3)] "1.prems"(5) by (auto simp: allIds_def)
  with ni xs(2) have "k \<noteq> i" by auto
  moreover have "k \<notin> set (allIds z')" if z': "z' \<in> set (filterNonNull (map ?del xs))" for z'
  proof -
    from z' obtain z where z: "z \<in> set xs" "?del z = Some z'"
      by (auto simp: set_filterNonNull)
    show ?thesis
    proof (cases "z = c")
      case True
      have "distinct (allIds c)" using dc xs(2) by (rule distinct_concat_each)
      with "1.IH"[OF neq xs(1) xs(2)] z True xs(3) "1.prems"(4,5) show ?thesis by blast
    next
      case False
      with distinct_concat_disjoint[OF dc xs(2) z(1)] have "set (allIds c) \<inter> set (allIds z) = {}" by blast
      with kc deleteNode_ids_subset[OF z(2)] show ?thesis by blast
    qed
  qed
  ultimately show ?case using t' by (auto simp: allIds_simp)
qed

lemma deleteNode_outside_kept:
  "deleteNodeFromTree t j = Some t' \<Longrightarrow> m \<in> set (nodesOf t) \<Longrightarrow>
     (\<forall>x\<in>set (nodesOf t). id_node x = j \<longrightarrow> m \<notin> set (nodesOf x)) \<Longrightarrow>
     \<exists>m'\<in>set (nodesOf t'). ownFields m' = ownFields m"
proof (induction t j arbitrary: t' rule: deleteNodeFromTree.induct)
  case (1 i l s d md cs col pos targetId)
  let ?t = "MindmapNode i l s d md cs col pos"
  let ?del = "\<lambda>child. deleteNodeFromTree child targetId"
  from "1.prems"(1) have neq: "i \<noteq> targetId" by (auto split: if_splits)
  show ?case
  proof (cases "m = ?t")
    case True
    with "1.prems"(1) neq have "t' \<in> set (nodesOf t')" "ownFields t' = ownFields m"
      by (auto simp: ownFields_def nodesOf_self split: option.splits)
    then show ?thesis by blast
  next
    case False
    with "1.prems"(2) obtain xs c where xs: "cs = Some xs" "c \<in> set xs" "m \<in> set (nodesOf c)"
      by (auto split: option.splits)
    from "1.prems"(1) neq xs(1) have t': "t' = MindmapNode i l s d md (Some (filterNonNull (map ?del xs))) col pos"
      by simp
    have sub: "set (nodesOf c) \<subseteq> set (nodesOf ?t)" using xs(1,2) by auto
    have "c \<in> set (nodesOf ?t)" using sub nodesOf_self by blast
    with "1.prems"(3) xs(3) have "id_node c \<noteq> targetId" by blast
    then obtain c' where c': "?del c = Some c'"
      using deleteNode_None_iff[of c targetId] by (cases "?del c") auto
    have "\<forall>x\<in>set (nodesOf c). id_node x = targetId \<longrightarrow> m \<notin> set (nodesOf x)"
      using "1.prems"(3) sub by blast
    with "1.IH"[OF neq xs(1) xs(2) c' xs(3)] obtain m' where m': "m' \<in> set (nodesOf c')" "ownFields m' = ownFields m"
      by blast
    have "c' \<in> set (filterNonNull (map ?del xs))"
      using xs(2) c' by (force simp: set_filterNonNull)
    with m' t' show ?thesis by auto
  qed
qed

lemma nodesOf_eq: "nodesOf x = x # descendantsOf x"
  by (cases x) (simp add: descendantsOf_def childrenOf_def split: option.splits)

text \<open>
  C5. In a tree with unique ids, \<open>deleteNodeFromTree\<close> returns null exactly when the id is
  the root's, and \<open>handleDeleteNode\<close> leaves the state as it is for that id.  Otherwise the
  tree it returns has no node with the id and no node with the id of a descendant of the
  deleted node (\<open>findNode\<close> returns null for them), and every node outside the deleted
  subtree is still found, with the fields it had.
\<close>
theorem deleteNode_removes_subtree:
  assumes "distinct (allIds t)"
  shows "(deleteNodeFromTree t j = None \<longleftrightarrow> j = id_node t) \<and>
         (root_node (mindmapData st) = t \<and> j = id_node t \<longrightarrow> handleDeleteNode st j = st) \<and>
         (\<forall>t'. deleteNodeFromTree t j = Some t' \<longrightarrow>
            findNode j t' = None \<and>
            (\<forall>x\<in>set (nodesOf t). id_node x = j \<longrightarrow>
               (\<forall>dsc\<in>set (descendantsOf x). findNode (id_node dsc) t' = None)) \<and>
            (\<forall>m\<in>set (nodesOf t).
               (\<forall>x\<in>set (nodesOf t). id_node x = j \<longrightarrow> m \<notin> set (nodesOf x)) \<longrightarrow>
               (\<exists>m'. findNode (id_node m) t' = Some m' \<and> ownFields m' = ownFields m)))"
proof (intro conjI allI impI ballI)
  show "(deleteNodeFromTree t j = None) = (j = id_node t)"
    by (rule deleteNode_None_iff)
next
  assume "root_node (mindmapData st) = t \<and> j = id_node t"
  then show "handleDeleteNode st j = st"
    by (simp add: handleDeleteNode_def)
next
  fix t' assume "deleteNodeFromTree t j = Some t'"
  then show "findNode j t' = None"
    by (simp add: findNode_None_iff deleteNode_target_gone)
next
  fix t' x dsc
  assume del: "deleteNodeFromTree t j = Some t'" and x: "x \<in> set (nodesOf t)" "id_node x = j"
    and dsc: "dsc \<in> set (descendantsOf x)"
  from dsc have "id_node dsc \<in> set (allIds x)"
    by (simp add: allIds_def nodesOf_eq)
  with deleteNode_subtree_gone[OF assms del x] show "findNode (id_node dsc) t' = None"
    by (simp add: findNode_None_iff)
next
  fix t' m
  assume del: "deleteNodeFromTree t j = Some t'" and m: "m \<in> set (nodesOf t)"
    and out: "\<forall>x\<in>set (nodesOf t). id_node x = j \<longrightarrow> m \<notin> set (nodesOf x)"
  from deleteNode_outside_kept[OF del m out] obtain m'
    where m': "m' \<in> set (nodesOf t')" "ownFields m' = ownFields m" by blast
  have "distinct (allIds t')" using assms del by (rule deleteNode_distinct)
  then have "findNode (id_node m') t' = Some m'" using m'(1) by (rule findNode_unique)
  moreover from m'(2) have "id_node m' = id_node m" by (simp add: ownFields_def)
  ultimately show "\<exists>m'. findNode (id_node m) t' = Some m' \<and> ownFields m' = ownFields m"
    using m'(2) by auto
qed

text \<open>Deleting \<open>a\<close> from the example document removes \<open>a\<close> and \<open>b\<close> and keeps \<open>c\<close>;
  deleting the root \<open>r\<close> changes nothing.\<close>
theorem deleteNode_removes_subtree_witness:
  "distinct (allIds exampleTree) \<and>
   deleteNodeFromTree exampleTree ''a'' \<noteq> None \<and>
   handleDeleteNode exampleState ''r'' = exampleState \<and>
   findNode ''a'' (the (deleteNodeFromTree exampleTree ''a'')) = None \<and>
   findNode ''b'' (the (deleteNodeFromTree exampleTree ''a'')) = None \<and>
   (\<exists>m'. findNode ''c'' (the (deleteNodeFromTree exampleTree ''a'')) = Some m' \<and> label m' = ''C'')"
proof -
  let ?a = "MindmapNode ''a'' ''A'' ''s'' ''d'' None (Some
          [MindmapNode ''b'' ''B'' ''s'' ''d'' None None None None]) None None"
  let ?b = "MindmapNode ''b'' ''B'' ''s'' ''d'' None None None None"
  let ?c = "MindmapNode ''c'' ''C'' ''s'' ''d'' None (Some []) None None"
  let ?t' = "MindmapNode ''r'' ''Root'' ''s'' ''d'' None (Some [?c]) None None"
  have h: "distinct (allIds exampleTree)"
    by (simp add: exampleTree_def allIds_def)
  have r: "root_node (mindmapData exampleState) = exampleTree \<and> ''r'' = id_node exampleTree"
    by (simp add: exampleState_def exampleTree_def)
  from deleteNode_removes_subtree[OF h, of "''r''" exampleState] r
  have 1: "handleDeleteNode exampleState ''r'' = exampleState" by blast
  have d: "deleteNodeFromTree exampleTree ''a'' = Some ?t'"
    by (simp add: exampleTree_def)
  note th = deleteNode_removes_subtree[OF h, of "''a''" exampleState]
  from th d have 2: "findNode ''a'' ?t' = None" by blast
  have a: "?a \<in> set (nodesOf exampleTree)" "id_node ?a = ''a''" "?b \<in> set (descendantsOf ?a)"
    by (simp_all add: exampleTree_def descendantsOf_def childrenOf_def)
  from th d a have "findNode (id_node ?b) ?t' = None" by blast
  then have 3: "findNode ''b'' ?t' = None" by simp
  have c: "?c \<in> set (nodesOf exampleTree)"
    "\<forall>x\<in>set (nodesOf exampleTree). id_node x = ''a'' \<longrightarrow> ?c \<notin> set (nodesOf x)"
    by (simp_all add: exampleTree_def)
  from th d c obtain m' where "findNode (id_node ?c) ?t' = Some m'" "ownFields m' = ownFields ?c"
    by blast
  then have 4: "\<exists>m'. findNode ''c'' ?t' = Some m' \<and> label m' = ''C''"
    by (auto simp: ownFields_def)
  from h 1 d 2 3 4 show ?thesis by simp
qed

section \<open>The layout as the list of its calls\<close>

lemma zip_upt_nth: "zip [0..<length xs] xs = map (\<lambda>k. (k, xs ! k)) [0..<length xs]"
  by (rule nth_equalityI) auto

lemma concat_map_concat: "concat (map f (concat xss)) = concat (map (\<lambda>xs. concat (map f xs)) xss)"
  by (induction xss) auto

lemma concat_concat_map: "concat (concat (map g xs)) = concat (map (\<lambda>x. concat (g x)) xs)"
  by (induction xs) auto

lemma map_concat_map: "map f (concat (map g xs)) = concat (map (\<lambda>x. map f (g x)) xs)"
  by (induction xs) auto

lemma calculatePositions_calls:
  "calculatePositions C n level index px py sc pa pid =
     (map pushedNode (callsFrom C \<lparr>c_node = n, c_level = level, c_index = index, c_parentX = px,
                 c_parentY = py, c_siblingCount = sc, c_parentAngle = pa, c_parentId = pid\<rparr>),
      concat (map pushedEdge (callsFrom C \<lparr>c_node = n, c_level = level, c_index = index, c_parentX = px,
                 c_parentY = py, c_siblingCount = sc, c_parentAngle = pa, c_parentId = pid\<rparr>)))"
proof (induction n arbitrary: level index px py sc pa pid rule: nodesOf.induct)
  case (1 i l s d m cs col pos)
  let ?n = "MindmapNode i l s d m cs col pos"
  let ?q = "\<lparr>c_node = ?n, c_level = level, c_index = index, c_parentX = px,
             c_parentY = py, c_siblingCount = sc, c_parentAngle = pa, c_parentId = pid\<rparr>"
  let ?out = "\<lambda>q. (map pushedNode (callsFrom C q), concat (map pushedEdge (callsFrom C q)))"
  have here: "pushedNode ?q = \<lparr>nodeId = i, flow_x = callX ?q, flow_y = callY ?q,
                    data = \<lparr>data_label = l, data_summary = s, data_description = d,
                            data_metadata = m, originalNode = ?n\<rparr>\<rparr>"
    by (simp add: pushedNode_def)
  have edge: "pushedEdge ?q = (case pid of None \<Rightarrow> []
        | Some p \<Rightarrow> if p \<noteq> [] then [\<lparr>edge_id = ''edge-'' @ p @ ''-'' @ i, source = p, target = i\<rparr>] else [])"
    by (simp add: pushedEdge_def split: option.splits)
  obtain x y angle where pl: "placeNode level index px py sc pa = (x, y, angle)"
    by (cases "placeNode level index px py sc pa") auto
  then have xy: "callX ?q = x" "callY ?q = y" "callAngle ?q = angle"
    by (simp_all add: callX_def callY_def callAngle_def)
  show ?case
  proof (cases "case cs of None \<Rightarrow> False | Some xs \<Rightarrow> length xs > 0 \<and> i \<notin> C")
    case False
    then have "childCalls C ?q = []"
      by (auto simp: childCalls_def childrenOf_def split: option.splits)
    then have "callsFrom C ?q = [?q]" by (simp add: callsFrom.simps[of C ?q])
    with False pl xy show ?thesis
      by (auto simp add: pushedNode_def pushedEdge_def split: option.splits)
  next
    case True
    then obtain xs where xs: "cs = Some xs" "xs \<noteq> []" "i \<notin> C" by (auto split: option.splits)
    let ?R = "map (\<lambda>(childIndex, child).
                  calculatePositions C child (Suc level) childIndex x y (length xs) angle (Some i))
                (zip [0..<length xs] xs)"
    have cc: "childCalls C ?q = map (\<lambda>k. \<lparr>c_node = xs ! k, c_level = Suc level,
              c_index = k, c_parentX = x, c_parentY = y,
              c_siblingCount = length xs, c_parentAngle = angle,
              c_parentId = Some i\<rparr>) [0..<length xs]"
      using xs xy by (simp add: childCalls_def childrenOf_def)
    have res: "?R = map ?out (childCalls C ?q)"
      unfolding cc zip_upt_nth map_map
    proof (rule map_cong[OF refl])
      fix k assume "k \<in> set [0..<length xs]"
      then have "xs ! k \<in> set xs" by simp
      from "1.IH"[OF xs(1) this]
      show "((\<lambda>(childIndex, child).
                  calculatePositions C child (Suc level) childIndex x y (length xs) angle (Some i)) \<circ> (\<lambda>k. (k, xs ! k))) k
           = (?out \<circ> (\<lambda>k. \<lparr>c_node = xs ! k, c_level = Suc level,
              c_index = k, c_parentX = x, c_parentY = y,
              c_siblingCount = length xs, c_parentAngle = angle,
              c_parentId = Some i\<rparr>)) k"
        by simp
    qed
    have unf: "calculatePositions C ?n level index px py sc pa pid =
        ([pushedNode ?q] @ concat (map fst ?R), pushedEdge ?q @ concat (map snd ?R))"
      using xs pl xy by (simp add: pushedNode_def pushedEdge_def Let_def del: map_map split: option.splits)
    show ?thesis
      unfolding unf res
      by (subst (1 2) callsFrom.simps[of C ?q])
         (simp add: comp_def concat_concat_map map_concat_map)
  qed
qed

lemma convertMindmapToFlow_calls:
  "convertMindmapToFlow rootNode C =
     (map pushedNode (callsFrom C (rootCall rootNode)),
      concat (map pushedEdge (callsFrom C (rootCall rootNode))))"
  by (simp add: convertMindmapToFlow_def rootCall_def calculatePositions_calls)

lemma callsFrom_self: "q \<in> set (callsFrom C q)"
  by (subst callsFrom.simps) simp

lemma callsFrom_cases:
  "c \<in> set (callsFrom C r) \<Longrightarrow> c = r \<or> (\<exists>k\<in>set (childCalls C r). c \<in> set (callsFrom C k))"
  by (subst (asm) callsFrom.simps) auto

lemma callsFrom_step:
  "k \<in> set (childCalls C r) \<Longrightarrow> c \<in> set (callsFrom C k) \<Longrightarrow> c \<in> set (callsFrom C r)"
  by (subst callsFrom.simps) auto

lemma callsFrom_children:
  "q \<in> set (callsFrom C r) \<Longrightarrow> c \<in> set (childCalls C q) \<Longrightarrow> c \<in> set (callsFrom C r)"
proof (induction C r rule: callsFrom.induct)
  case (1 C r)
  from "1.prems"(1) consider "q = r" | k where "k \<in> set (childCalls C r)" "q \<in> set (callsFrom C k)"
    using callsFrom_cases by blast
  then show ?case
  proof cases
    case 1
    with "1.prems"(2) show ?thesis
      by (auto intro: callsFrom_step callsFrom_self)
  next
    case 2
    with "1.IH" "1.prems"(2) have "c \<in> set (callsFrom C k)" by blast
    with 2(1) show ?thesis by (rule callsFrom_step)
  qed
qed

lemma callsFrom_parent:
  "c \<in> set (callsFrom C r) \<Longrightarrow> c = r \<or> (\<exists>q\<in>set (callsFrom C r). c \<in> set (childCalls C q))"
proof (induction C r rule: callsFrom.induct)
  case (1 C r)
  from "1.prems"(1) consider "c = r" | k where "k \<in> set (childCalls C r)" "c \<in> set (callsFrom C k)"
    using callsFrom_cases by blast
  then show ?case
  proof cases
    case 1
    then show ?thesis by simp
  next
    case 2
    with "1.IH" have "c = k \<or> (\<exists>q\<in>set (callsFrom C k). c \<in> set (childCalls C q))" by blast
    then show ?thesis
    proof
      assume "c = k"
      with 2(1) callsFrom_self[of r C] show ?thesis by blast
    next
      assume "\<exists>q\<in>set (callsFrom C k). c \<in> set (childCalls C q)"
      then obtain q where "q \<in> set (callsFrom C k)" "c \<in> set (childCalls C q)" by blast
      with 2(1) show ?thesis by (blast intro: callsFrom_step)
    qed
  qed
qed

lemma childCalls_node:
  "c \<in> set (childCalls C q) \<Longrightarrow> c_node c \<in> set (childrenOf (c_node q))"
  by (auto simp: childCalls_def split: if_splits)

lemma callsFrom_node:
  "c \<in> set (callsFrom C r) \<Longrightarrow> c_node c \<in> set (nodesOf (c_node r))"
proof (induction C r rule: callsFrom.induct)
  case (1 C r)
  from "1.prems"(1) consider "c = r" | k where "k \<in> set (childCalls C r)" "c \<in> set (callsFrom C k)"
    using callsFrom_cases by blast
  then show ?case
  proof cases
    case 1
    then show ?thesis by (simp add: nodesOf_self)
  next
    case 2
    with "1.IH" have "c_node c \<in> set (nodesOf (c_node k))" by blast
    moreover have "c_node k \<in> set (childrenOf (c_node r))" using 2(1) by (rule childCalls_node)
    ultimately show ?thesis using nodesOf_children by blast
  qed
qed


section \<open>The parent of a node, and the clearing of the selection\<close>

lemma findParent_absent: "j \<notin> set (allIds t) \<Longrightarrow> findParent t j par = None"
proof (induction t j par rule: findParent.induct)
  case (1 i l s d m cs col pos targetId parent)
  from "1.prems" have neq: "i \<noteq> targetId" by (auto simp: allIds_simp)
  show ?case
  proof (cases cs)
    case None
    with neq show ?thesis by simp
  next
    case (Some xs)
    have "\<forall>x\<in>set xs. findParent x targetId (Some (MindmapNode i l s d m cs col pos)) = None"
      using "1.IH"[OF neq Some] "1.prems" Some by (auto simp: allIds_simp)
    with neq Some show ?thesis by (simp add: firstSome_None_iff)
  qed
qed

lemma findParent_self: "findParent t (id_node t) par = par"
  by (cases t) simp

lemma childrenOf_nodesOf: "n \<in> set (childrenOf p) \<Longrightarrow> n \<in> set (nodesOf p)"
  using nodesOf_children nodesOf_self by blast

lemma findParent_unique:
  "distinct (allIds t) \<Longrightarrow> p \<in> set (nodesOf t) \<Longrightarrow> n \<in> set (childrenOf p) \<Longrightarrow>
     findParent t (id_node n) par = Some p"
proof (induction t arbitrary: par rule: nodesOf.induct)
  case (1 i l s d m cs col pos)
  let ?t = "MindmapNode i l s d m cs col pos"
  let ?f = "\<lambda>child. findParent child (id_node n) (Some ?t)"
  have np: "n \<in> set (nodesOf p)" using "1.prems"(3) by (rule childrenOf_nodesOf)
  show ?case
  proof (cases "p = ?t")
    case True
    with "1.prems"(3) obtain xs where xs: "cs = Some xs" "n \<in> set xs"
      by (auto simp: childrenOf_def split: option.splits)
    from "1.prems"(1) xs have dc: "distinct (concat (map allIds xs))" and ni: "i \<notin> set (concat (map allIds xs))"
      by (auto simp: allIds_simp)
    have nn: "id_node n \<in> set (allIds n)" by (simp add: allIds_def nodesOf_self)
    with ni xs(2) have neq: "i \<noteq> id_node n" by auto
    have "\<forall>z\<in>set xs. z \<noteq> n \<longrightarrow> ?f z = None"
    proof (intro ballI impI)
      fix z assume "z \<in> set xs" "z \<noteq> n"
      with distinct_concat_disjoint[OF dc xs(2)] have "set (allIds n) \<inter> set (allIds z) = {}" by blast
      with nn show "?f z = None" by (auto intro: findParent_absent)
    qed
    moreover have "?f n = Some ?t" by (rule findParent_self)
    ultimately have "firstSome ?f xs = Some ?t" using xs(2) by (intro firstSome_unique) auto
    with neq xs(1) True show ?thesis by simp
  next
    case False
    with "1.prems"(2) obtain xs c where xs: "cs = Some xs" "c \<in> set xs" "p \<in> set (nodesOf c)"
      by (auto split: option.splits)
    from "1.prems"(1) xs have dc: "distinct (concat (map allIds xs))" and ni: "i \<notin> set (concat (map allIds xs))"
      by (auto simp: allIds_simp)
    have "n \<in> set (nodesOf c)" using nodesOf_trans[OF xs(3)] np by blast
    then have nc: "id_node n \<in> set (allIds c)" by (rule id_in_allIds)
    with ni xs(2) have neq: "i \<noteq> id_node n" by auto
    have "distinct (allIds c)" using dc xs(2) by (rule distinct_concat_each)
    from "1.IH"[OF xs(1) xs(2) this xs(3) "1.prems"(3)] have fc: "?f c = Some p" .
    have "\<forall>z\<in>set xs. z \<noteq> c \<longrightarrow> ?f z = None"
    proof (intro ballI impI)
      fix z assume "z \<in> set xs" "z \<noteq> c"
      with distinct_concat_disjoint[OF dc xs(2)] have "set (allIds c) \<inter> set (allIds z) = {}" by blast
      with nc show "?f z = None" by (auto intro: findParent_absent)
    qed
    with fc xs(2) have "firstSome ?f xs = Some p" by (intro firstSome_unique) auto
    with neq xs(1) show ?thesis by simp
  qed
qed


lemma root_not_child:
  assumes "distinct (allIds t)" "p \<in> set (nodesOf t)"
  shows "t \<notin> set (childrenOf p)"
proof
  assume tc: "t \<in> set (childrenOf p)"
  from findParent_unique[OF assms tc, of None] findParent_self[of t None]
  show False by simp
qed



section \<open>A click on a node\<close>



section \<open>Updating a node\<close>












section \<open>The search\<close>

lemma includes_str_iff: "includes_str s q \<longleftrightarrow> (\<exists>pre post. s = pre @ q @ post)"
proof (induction s)
  case Nil
  then show ?case by auto
next
  case (Cons c cs)
  have "(\<exists>pre post. c # cs = pre @ q @ post) \<longleftrightarrow>
        prefix q (c # cs) \<or> (\<exists>pre post. cs = pre @ q @ post)"
  proof
    assume "\<exists>pre post. c # cs = pre @ q @ post"
    then obtain pre post where e: "c # cs = pre @ q @ post" by blast
    show "prefix q (c # cs) \<or> (\<exists>pre post. cs = pre @ q @ post)"
    proof (cases pre)
      case Nil
      with e show ?thesis by (auto simp: prefix_def)
    next
      case (Cons a pre')
      with e have "cs = pre' @ q @ post" by simp
      then show ?thesis by blast
    qed
  next
    assume "prefix q (c # cs) \<or> (\<exists>pre post. cs = pre @ q @ post)"
    then show "\<exists>pre post. c # cs = pre @ q @ post"
    proof
      assume "prefix q (c # cs)"
      then obtain post where "c # cs = q @ post" by (auto simp: prefix_def)
      then have "c # cs = [] @ q @ post" by simp
      then show ?thesis by blast
    next
      assume "\<exists>pre post. cs = pre @ q @ post"
      then obtain pre post where "cs = pre @ q @ post" by blast
      then have "c # cs = (c # pre) @ q @ post" by simp
      then show ?thesis by blast
    qed
  qed
  with Cons.IH show ?case by simp
qed

lemma includes_str_ci: "includes_str (toLowerCase txt) (toLowerCase q) = containsIgnoreCase txt q"
  by (simp add: includes_str_iff containsIgnoreCase_def)

lemma searchInNode_set:
  "set (searchInNode (toLowerCase q) t) = {id_node n |n. n \<in> set (nodesOf t) \<and> matchesQuery n q}"
proof (induction t rule: nodesOf.induct)
  case (1 i l s d m cs col pos)
  let ?t = "MindmapNode i l s d m cs col pos"
  let ?S = "\<lambda>t. {id_node n |n. n \<in> set (nodesOf t) \<and> matchesQuery n q}"
  have tagm: "(case m of None \<Rightarrow> False
               | Some md \<Rightarrow> (case tags md of None \<Rightarrow> False
                   | Some ts \<Rightarrow> list_ex (\<lambda>tag. includes_str (toLowerCase tag) (toLowerCase q)) ts)) =
              (\<exists>md ts tag. m = Some md \<and> tags md = Some ts \<and> tag \<in> set ts \<and> containsIgnoreCase tag q)"
    by (auto simp: list_ex_iff includes_str_ci split: option.splits)
  have here: "set (if includes_str (toLowerCase l) (toLowerCase q) \<or>
                    includes_str (toLowerCase s) (toLowerCase q) \<or>
                    includes_str (toLowerCase d) (toLowerCase q) \<or>
                    (case m of None \<Rightarrow> False
                     | Some md \<Rightarrow> (case tags md of None \<Rightarrow> False
                        | Some ts \<Rightarrow> list_ex (\<lambda>tag. includes_str (toLowerCase tag) (toLowerCase q)) ts))
                 then [i] else []) = (if matchesQuery ?t q then {i} else {})"
    unfolding tagm by (simp add: includes_str_ci matchesQuery_def)
  have rest: "set (case cs of None \<Rightarrow> [] | Some xs \<Rightarrow> concat (map (searchInNode (toLowerCase q)) xs)) =
              (\<Union>c\<in>set (childrenOf ?t). ?S c)"
    using "1.IH" by (cases cs) (simp_all add: childrenOf_def)
  have split: "?S ?t = (if matchesQuery ?t q then {i} else {}) \<union> (\<Union>c\<in>set (childrenOf ?t). ?S c)"
  proof (rule set_eqI)
    fix j
    show "j \<in> ?S ?t \<longleftrightarrow> j \<in> (if matchesQuery ?t q then {i} else {}) \<union> (\<Union>c\<in>set (childrenOf ?t). ?S c)"
    proof
      assume "j \<in> ?S ?t"
      then obtain n where n: "j = id_node n" "n \<in> set (nodesOf ?t)" "matchesQuery n q" by blast
      from nodesOf_cases[OF n(2)] n(1,3)
      show "j \<in> (if matchesQuery ?t q then {i} else {}) \<union> (\<Union>c\<in>set (childrenOf ?t). ?S c)"
        by auto
    next
      assume "j \<in> (if matchesQuery ?t q then {i} else {}) \<union> (\<Union>c\<in>set (childrenOf ?t). ?S c)"
      then consider "matchesQuery ?t q" "j = i"
        | c n where "c \<in> set (childrenOf ?t)" "n \<in> set (nodesOf c)" "matchesQuery n q" "j = id_node n"
        by (auto split: if_splits)
      then show "j \<in> ?S ?t"
      proof cases
        case 1
        with nodesOf_self[of ?t] show ?thesis by force
      next
        case 2
        with nodesOf_children[OF 2(1)] show ?thesis by blast
      qed
    qed
  qed
  have "set (searchInNode (toLowerCase q) ?t) =
        (if matchesQuery ?t q then {i} else {}) \<union> (\<Union>c\<in>set (childrenOf ?t). ?S c)"
    unfolding here[symmetric] rest[symmetric] by (simp add: Let_def)
  with split show ?case by simp
qed

lemma trim_whitespace: "(\<forall>c\<in>set q. isWhitespace c) \<Longrightarrow> trim q = []"
  by (auto simp: trim_def dest: set_dropWhileD)

lemma searchEffect_highlights:
  "highlightedNodes (onSearchChange st q) =
     (if trim q \<noteq> [] then {id_node n |n. n \<in> set (nodesOf (root_node (mindmapData st))) \<and> matchesQuery n q}
      else if truthy (selectedNodeId st) then highlightedNodes st else {})"
  by (simp add: onSearchChange_def searchEffect_def searchNodes_def searchInNode_set)

lemma whitespace_query_treated_as_empty:
  assumes "\<forall>c\<in>set q. isWhitespace c"
  shows "searchNodes st q = [] \<and>
         highlightedNodes (onSearchChange st q) =
           (if truthy (selectedNodeId st) then highlightedNodes st else {})"
  using trim_whitespace[OF assms] by (simp add: searchNodes_def searchEffect_highlights)

lemma library_tag_matches:
  assumes "metadata n = Some md" "tags md = Some [''library'', ''ui'']"
  shows "matchesQuery n ''library''"
proof -
  have "toLowerCase ''library'' = [] @ toLowerCase ''library'' @ []" by simp
  then have "containsIgnoreCase ''library'' ''library''"
    unfolding containsIgnoreCase_def by blast
  with assms show ?thesis unfolding matchesQuery_def by auto
qed

lemma trim_library: "trim ''library'' \<noteq> []"
  by (simp add: trim_def isWhitespace_def)

text \<open>The query of one space is not empty and the label \<open>React Flow\<close> contains it, but the
  highlights stay empty.\<close>
theorem onSearchChange_whitespace_counterexample:
  "'' '' \<noteq> [] \<and>
   libraryNode \<in> set (nodesOf (root_node (mindmapData libraryState))) \<and>
   matchesQuery libraryNode '' '' \<and>
   id_node libraryNode \<notin> highlightedNodes (onSearchChange libraryState '' '')"
proof -
  have "toLowerCase ''React Flow'' = toLowerCase ''React'' @ toLowerCase '' '' @ toLowerCase ''Flow''"
    by (simp add: toLowerCase_def)
  then have "containsIgnoreCase ''React Flow'' '' ''"
    unfolding containsIgnoreCase_def by blast
  then have m: "matchesQuery libraryNode '' ''"
    by (simp add: matchesQuery_def libraryNode_def)
  have t: "trim '' '' = []" by (simp add: trim_def isWhitespace_def)
  have h: "highlightedNodes (onSearchChange libraryState '' '') = {}"
    by (simp add: onSearchChange_def searchEffect_def t libraryState_def truthy_def)
  have n: "libraryNode \<in> set (nodesOf (root_node (mindmapData libraryState)))"
    by (simp add: libraryState_def nodesOf_self)
  from m h n show ?thesis by simp
qed

text \<open>
  C8, amended.  After a change of the search query: when the trimmed query is not empty, the
  highlights are exactly the ids of the nodes whose label, summary, description or a tag
  contains the query as a case-insensitive substring; when the trimmed query is empty, the
  highlights are empty if no node is selected and unchanged if a node with a non-empty id is
  selected.  A node with the tags \<open>library\<close> and \<open>ui\<close> is highlighted by the query
  \<open>library\<close>.
\<close>
theorem onSearchChange_highlights:
  "(trim q \<noteq> [] \<longrightarrow>
      highlightedNodes (onSearchChange st q) =
        {id_node n |n. n \<in> set (nodesOf (root_node (mindmapData st))) \<and> matchesQuery n q}) \<and>
   (trim q = [] \<and> selectedNodeId st = None \<longrightarrow> highlightedNodes (onSearchChange st q) = {}) \<and>
   (trim q = [] \<and> (\<exists>s. selectedNodeId st = Some s \<and> s \<noteq> []) \<longrightarrow>
      highlightedNodes (onSearchChange st q) = highlightedNodes st) \<and>
   (\<forall>n\<in>set (nodesOf (root_node (mindmapData st))).
      (\<exists>md. metadata n = Some md \<and> tags md = Some [''library'', ''ui'']) \<longrightarrow>
      id_node n \<in> highlightedNodes (onSearchChange st ''library''))"
proof (intro conjI impI ballI)
  assume "trim q \<noteq> []"
  then show "highlightedNodes (onSearchChange st q) =
        {id_node n |n. n \<in> set (nodesOf (root_node (mindmapData st))) \<and> matchesQuery n q}"
    by (simp add: searchEffect_highlights)
next
  assume "trim q = [] \<and> selectedNodeId st = None"
  then show "highlightedNodes (onSearchChange st q) = {}"
    by (simp add: searchEffect_highlights truthy_def)
next
  assume "trim q = [] \<and> (\<exists>s. selectedNodeId st = Some s \<and> s \<noteq> [])"
  then show "highlightedNodes (onSearchChange st q) = highlightedNodes st"
    by (auto simp: searchEffect_highlights truthy_def)
next
  fix n assume n: "n \<in> set (nodesOf (root_node (mindmapData st)))"
    and "\<exists>md. metadata n = Some md \<and> tags md = Some [''library'', ''ui'']"
  then have "matchesQuery n ''library''" using library_tag_matches by blast
  with n have "id_node n \<in> {id_node n |n. n \<in> set (nodesOf (root_node (mindmapData st))) \<and>
                                  matchesQuery n ''library''}" by blast
  then show "id_node n \<in> highlightedNodes (onSearchChange st ''library'')"
    by (simp only: searchEffect_highlights trim_library if_True simp_thms)
qed

text \<open>The query \<open>library\<close> highlights the node with that tag; the empty query clears the
  highlights with no selection and keeps them with \<open>c\<close> selected.\<close>
theorem onSearchChange_highlights_witness:
  "trim ''library'' \<noteq> [] \<and>
   libraryNode \<in> set (nodesOf (root_node (mindmapData libraryState))) \<and>
   (\<exists>md. metadata libraryNode = Some md \<and> tags md = Some [''library'', ''ui'']) \<and>
   ''lib'' \<in> highlightedNodes (onSearchChange libraryState ''library'') \<and>
   trim [] = [] \<and> selectedNodeId libraryState = None \<and>
   highlightedNodes (onSearchChange libraryState []) = {} \<and>
   selectedNodeId exampleState = Some ''c'' \<and>
   highlightedNodes (onSearchChange exampleState []) = {''c'', ''r''}"
proof -
  note th = onSearchChange_highlights[of "''library''" libraryState]
  have n: "libraryNode \<in> set (nodesOf (root_node (mindmapData libraryState)))"
    by (simp add: libraryState_def nodesOf_self)
  have md: "\<exists>md. metadata libraryNode = Some md \<and> tags md = Some [''library'', ''ui'']"
    by (simp add: libraryNode_def)
  from th n md have "id_node libraryNode \<in> highlightedNodes (onSearchChange libraryState ''library'')"
    by blast
  then have 1: "''lib'' \<in> highlightedNodes (onSearchChange libraryState ''library'')"
    by (simp add: libraryNode_def)
  have t: "trim [] = []" by (simp add: trim_def)
  have s: "selectedNodeId libraryState = None" by (simp add: libraryState_def)
  from onSearchChange_highlights[of "[]" libraryState] t s
  have 2: "highlightedNodes (onSearchChange libraryState []) = {}" by blast
  have s2: "selectedNodeId exampleState = Some ''c''" by (simp add: exampleState_def)
  then have "\<exists>s. selectedNodeId exampleState = Some s \<and> s \<noteq> []" by simp
  with onSearchChange_highlights[of "[]" exampleState] t
  have "highlightedNodes (onSearchChange exampleState []) = highlightedNodes exampleState" by blast
  then have 3: "highlightedNodes (onSearchChange exampleState []) = {''c'', ''r''}"
    by (simp add: exampleState_def)
  show ?thesis
    by (intro conjI) (fact trim_library n md 1 t s 2 s2 3)+
qed

lemma empty_id_selection_reachable:
  "fst (convertMindmapToFlow (root_node (mindmapData emptyIdInitial)) (collapsedNodes emptyIdInitial))
     = [emptyIdFlowNode] \<and>
   onNodeClick emptyIdInitial emptyIdFlowNode = emptyIdState"
proof -
  have 1: "fst (convertMindmapToFlow (root_node (mindmapData emptyIdInitial))
                 (collapsedNodes emptyIdInitial)) = [emptyIdFlowNode]"
    by (simp add: emptyIdInitial_def emptyIdFlowNode_def convertMindmapToFlow_def placeNode_def)
  have 2: "onNodeClick emptyIdInitial emptyIdFlowNode = emptyIdState"
    by (simp add: onNodeClick_def emptyIdInitial_def emptyIdFlowNode_def emptyIdState_def Let_def)
  from 1 2 show ?thesis by simp
qed

text \<open>
  C10.  A query of only whitespace is trimmed to the empty string, so \<open>searchNodes\<close>
  returns nothing and the highlights are not recomputed (lemma
  \<open>whitespace_query_treated_as_empty\<close>).  The highlights are then cleared when
  \<open>selectedNodeId\<close> is null, and also when it is the empty string: in the document whose
  root has the id \<open>""\<close>, with the root selected and highlighted, the query of two spaces
  empties the highlights.
\<close>
theorem whitespace_query_empty_id_selected:
  "list_all isWhitespace ''  '' \<and>
   selectedNodeId emptyIdState = Some [] \<and>
   findNode [] (root_node (mindmapData emptyIdState)) \<noteq> None \<and>
   highlightedNodes emptyIdState = {[]} \<and>
   highlightedNodes (onSearchChange emptyIdState ''  '') = {}"
  by (simp add: emptyIdState_def isWhitespace_def onSearchChange_def searchEffect_def trim_def
        truthy_def)

section \<open>A click followed by the search effect\<close>









section \<open>Collapsed nodes in the layout\<close>

lemma childCalls_expanded:
  "id_node (c_node q) \<notin> C \<Longrightarrow> k < length (childrenOf (c_node q)) \<Longrightarrow>
     \<lparr>c_node = childrenOf (c_node q) ! k, c_level = c_level q + 1, c_index = k,
      c_parentX = callX q, c_parentY = callY q,
      c_siblingCount = length (childrenOf (c_node q)), c_parentAngle = callAngle q,
      c_parentId = Some (id_node (c_node q))\<rparr> \<in> set (childCalls C q)"
  by (simp add: childCalls_def)

lemma childCalls_fields:
  assumes "c \<in> set (childCalls C q)"
  shows "id_node (c_node q) \<notin> C" and "c_level c = c_level q + 1"
    and "c_index c < length (childrenOf (c_node q))"
    and "c_node c = childrenOf (c_node q) ! c_index c"
    and "c_parentX c = callX q" and "c_parentY c = callY q"
    and "c_siblingCount c = length (childrenOf (c_node q))"
    and "c_parentAngle c = callAngle q"
    and "c_parentId c = Some (id_node (c_node q))"
  using assms by (auto simp: childCalls_def split: if_splits)

lemma descendants_of_child:
  "ch \<in> set (childrenOf t) \<Longrightarrow> set (nodesOf ch) \<subseteq> set (descendantsOf t)"
  by (auto simp: descendantsOf_def)

lemma descendants_nodes: "set (descendantsOf t) \<subseteq> set (nodesOf t)"
  by (simp add: nodesOf_eq[of t] subset_insertI)

lemma visible_node_called:
  "X \<in> set (nodesOf (c_node r)) \<Longrightarrow>
   (\<forall>A\<in>set (nodesOf (c_node r)). X \<in> set (descendantsOf A) \<longrightarrow> id_node A \<notin> C) \<Longrightarrow>
   \<exists>c\<in>set (callsFrom C r). c_node c = X"
proof (induction C r rule: callsFrom.induct)
  case (1 C r)
  show ?case
  proof (cases "X = c_node r")
    case True
    with callsFrom_self[of r C] show ?thesis by blast
  next
    case False
    with nodesOf_cases[OF "1.prems"(1)] obtain ch
      where ch: "ch \<in> set (childrenOf (c_node r))" "X \<in> set (nodesOf ch)" by blast
    then have "X \<in> set (descendantsOf (c_node r))" using descendants_of_child by blast
    with "1.prems"(2) nodesOf_self[of "c_node r"] have opn: "id_node (c_node r) \<notin> C" by blast
    from ch(1) obtain k where k: "k < length (childrenOf (c_node r))" "childrenOf (c_node r) ! k = ch"
      by (auto simp: in_set_conv_nth)
    let ?kc = "\<lparr>c_node = childrenOf (c_node r) ! k, c_level = c_level r + 1, c_index = k,
      c_parentX = callX r, c_parentY = callY r,
      c_siblingCount = length (childrenOf (c_node r)), c_parentAngle = callAngle r,
      c_parentId = Some (id_node (c_node r))\<rparr>"
    have kc: "?kc \<in> set (childCalls C r)" using opn k(1) by (rule childCalls_expanded)
    have sub: "set (nodesOf ch) \<subseteq> set (nodesOf (c_node r))" using ch(1) by (rule nodesOf_children)
    have "X \<in> set (nodesOf (c_node ?kc))" using ch(2) k(2) by simp
    moreover have "\<forall>A\<in>set (nodesOf (c_node ?kc)). X \<in> set (descendantsOf A) \<longrightarrow> id_node A \<notin> C"
      using "1.prems"(2) sub k(2) by auto
    ultimately obtain c where "c \<in> set (callsFrom C ?kc)" "c_node c = X"
      using "1.IH"[OF kc] by blast
    with callsFrom_step[OF kc] show ?thesis by blast
  qed
qed

lemma allIds_eq: "allIds t = id_node t # map id_node (descendantsOf t)"
  by (simp add: allIds_def nodesOf_eq[of t])

lemma root_id_not_below:
  assumes d: "distinct (allIds t)" and X: "X \<in> set (nodesOf t)"
  shows "id_node t \<notin> id_node ` set (descendantsOf X)"
proof -
  from d have nt: "id_node t \<notin> id_node ` set (descendantsOf t)" by (simp add: allIds_eq)
  have "set (descendantsOf X) \<subseteq> set (descendantsOf t)"
  proof (cases "X = t")
    case True
    then show ?thesis by simp
  next
    case False
    with nodesOf_cases[OF X] obtain ch
      where ch: "ch \<in> set (childrenOf t)" "X \<in> set (nodesOf ch)" by blast
    from nodesOf_trans[OF ch(2)] descendants_nodes[of X] descendants_of_child[OF ch(1)]
    show ?thesis by blast
  qed
  with nt show ?thesis by blast
qed

lemma distinct_children:
  assumes "distinct (allIds t)"
  shows "distinct (concat (map allIds (childrenOf t)))"
  using assms by (cases t) (auto simp: allIds_simp childrenOf_def split: option.splits)

lemma collapsed_subtree_not_called:
  "distinct (allIds (c_node r)) \<Longrightarrow> X \<in> set (nodesOf (c_node r)) \<Longrightarrow> id_node X \<in> C \<Longrightarrow>
   c \<in> set (callsFrom C r) \<Longrightarrow> id_node (c_node c) \<notin> id_node ` set (descendantsOf X)"
proof (induction C r rule: callsFrom.induct)
  case (1 C r)
  from "1.prems"(4) consider "c = r" | k where "k \<in> set (childCalls C r)" "c \<in> set (callsFrom C k)"
    using callsFrom_cases by blast
  then show ?case
  proof cases
    case 1
    with root_id_not_below[OF "1.prems"(1,2)] show ?thesis by simp
  next
    case 2
    note kf = childCalls_fields[OF 2(1)]
    from kf(1) "1.prems"(3) have "X \<noteq> c_node r" by auto
    with nodesOf_cases[OF "1.prems"(2)] obtain ch
      where ch: "ch \<in> set (childrenOf (c_node r))" "X \<in> set (nodesOf ch)" by blast
    have kn: "c_node k \<in> set (childrenOf (c_node r))" using 2(1) by (rule childCalls_node)
    have dc: "distinct (concat (map allIds (childrenOf (c_node r))))"
      using "1.prems"(1) by (rule distinct_children)
    show ?thesis
    proof (cases "c_node k = ch")
      case True
      have "distinct (allIds (c_node k))" using dc kn by (rule distinct_concat_each)
      from "1.IH"[OF 2(1) this _ "1.prems"(3) 2(2)] ch(2) True show ?thesis by simp
    next
      case False
      from distinct_concat_disjoint[OF dc kn ch(1) False]
      have dj: "set (allIds (c_node k)) \<inter> set (allIds ch) = {}" .
      have "id_node (c_node c) \<in> set (allIds (c_node k))"
        using callsFrom_node[OF 2(2)] by (rule id_in_allIds)
      moreover have "id_node ` set (descendantsOf X) \<subseteq> set (allIds ch)"
        using nodesOf_trans[OF ch(2)] descendants_nodes[of X] by (auto simp: allIds_def)
      ultimately show ?thesis using dj by blast
    qed
  qed
qed

lemma parent_unique:
  assumes "distinct (allIds t)" "p \<in> set (nodesOf t)" "n \<in> set (childrenOf p)"
    and "p' \<in> set (nodesOf t)" "n \<in> set (childrenOf p')"
  shows "p' = p"
  using findParent_unique[OF assms(1,2,3), of None] findParent_unique[OF assms(1,4,5), of None]
  by simp

lemma rootCall_fields:
  "c_node (rootCall t) = t" "c_level (rootCall t) = 0" "c_parentId (rootCall t) = None"
  by (simp_all add: rootCall_def)

lemma pushedEdge_mem:
  "e \<in> set (pushedEdge c) \<Longrightarrow> c_parentId c = Some (source e) \<and> target e = id_node (c_node c)"
  by (cases "c_parentId c") (auto simp: pushedEdge_def split: if_splits)

lemma edge_ends_called:
  assumes e: "e \<in> set (snd (convertMindmapToFlow t C))"
  shows "\<exists>c\<in>set (callsFrom C (rootCall t)). \<exists>q\<in>set (callsFrom C (rootCall t)).
           target e = id_node (c_node c) \<and> source e = id_node (c_node q) \<and>
           c \<in> set (childCalls C q)"
proof -
  from e obtain c where c: "c \<in> set (callsFrom C (rootCall t))" "e \<in> set (pushedEdge c)"
    by (auto simp: convertMindmapToFlow_calls)
  from pushedEdge_mem[OF c(2)] obtain p
    where p: "c_parentId c = Some p" "source e = p" "target e = id_node (c_node c)" by blast
  with rootCall_fields(3)[of t] have "c \<noteq> rootCall t" by auto
  with callsFrom_parent[OF c(1)] obtain q
    where q: "q \<in> set (callsFrom C (rootCall t))" "c \<in> set (childCalls C q)" by blast
  from childCalls_fields(9)[OF q(2)] p have "source e = id_node (c_node q)" by simp
  with c(1) q p(3) show ?thesis by blast
qed

text \<open>With \<open>a\<close> and \<open>b\<close> collapsed in the chain \<open>r\<close>, \<open>a\<close>, \<open>b\<close>, \<open>e\<close>, the id of \<open>b\<close> is in
  the collapsed set and \<open>b\<close> gets no position: it is below the collapsed node \<open>a\<close>.\<close>
theorem collapsed_inside_collapsed_counterexample:
  "distinct (allIds chainTree) \<and>
   chainNodeB \<in> set (nodesOf chainTree) \<and>
   id_node chainNodeB \<in> {''a'', ''b''} \<and>
   id_node chainNodeB \<notin> nodeId ` set (fst (convertMindmapToFlow chainTree {''a'', ''b''}))"
  by (simp add: chainTree_def chainNodeA_def chainNodeB_def chainNodeE_def allIds_def
        convertMindmapToFlow_def placeNode_def)

text \<open>
  C4, amended.  In a tree with unique ids, let the id of the node \<open>X\<close> be in the collapsed
  set.  When no node above \<open>X\<close> is collapsed, the layout has a node for \<open>X\<close>, and the edge
  from the parent of \<open>X\<close> to \<open>X\<close> when the parent's id is not the empty string.  In every
  case no id of a descendant of \<open>X\<close> is the id of a node of the layout, nor the source or the
  target of one of its edges.
\<close>
theorem collapsed_node_layout:
  assumes d: "distinct (allIds rootNode)" and X: "X \<in> set (nodesOf rootNode)"
    and col: "id_node X \<in> C"
  shows "((\<forall>A\<in>set (nodesOf rootNode). X \<in> set (descendantsOf A) \<longrightarrow> id_node A \<notin> C) \<longrightarrow>
            (\<exists>fn\<in>set (fst (convertMindmapToFlow rootNode C)).
                nodeId fn = id_node X \<and> originalNode (data fn) = X) \<and>
            (\<forall>P\<in>set (nodesOf rootNode). X \<in> set (childrenOf P) \<and> id_node P \<noteq> [] \<longrightarrow>
                (\<exists>e\<in>set (snd (convertMindmapToFlow rootNode C)).
                    source e = id_node P \<and> target e = id_node X))) \<and>
         (\<forall>dsc\<in>set (descendantsOf X).
            (\<forall>fn\<in>set (fst (convertMindmapToFlow rootNode C)). nodeId fn \<noteq> id_node dsc) \<and>
            (\<forall>e\<in>set (snd (convertMindmapToFlow rootNode C)).
                source e \<noteq> id_node dsc \<and> target e \<noteq> id_node dsc))"
proof (intro conjI impI ballI)
  assume vis: "\<forall>A\<in>set (nodesOf rootNode). X \<in> set (descendantsOf A) \<longrightarrow> id_node A \<notin> C"
  from visible_node_called[of X "rootCall rootNode" C] X vis
  obtain c where c: "c \<in> set (callsFrom C (rootCall rootNode))" "c_node c = X"
    by (auto simp: rootCall_fields)
  then have "pushedNode c \<in> set (fst (convertMindmapToFlow rootNode C))"
    by (simp add: convertMindmapToFlow_calls)
  moreover have "nodeId (pushedNode c) = id_node X \<and> originalNode (data (pushedNode c)) = X"
    using c(2) by (simp add: pushedNode_def)
  ultimately show "\<exists>fn\<in>set (fst (convertMindmapToFlow rootNode C)).
                nodeId fn = id_node X \<and> originalNode (data fn) = X" by blast
next
  fix P
  assume vis: "\<forall>A\<in>set (nodesOf rootNode). X \<in> set (descendantsOf A) \<longrightarrow> id_node A \<notin> C"
    and P: "P \<in> set (nodesOf rootNode)" and XP: "X \<in> set (childrenOf P) \<and> id_node P \<noteq> []"
  from visible_node_called[of X "rootCall rootNode" C] X vis
  obtain c where c: "c \<in> set (callsFrom C (rootCall rootNode))" "c_node c = X"
    by (auto simp: rootCall_fields)
  from root_not_child[OF d P] XP have "X \<noteq> rootNode" by auto
  with c(2) have "c \<noteq> rootCall rootNode" by (auto simp: rootCall_fields)
  with callsFrom_parent[OF c(1)] obtain q
    where q: "q \<in> set (callsFrom C (rootCall rootNode))" "c \<in> set (childCalls C q)" by blast
  have qn: "c_node q \<in> set (nodesOf rootNode)"
    using callsFrom_node[OF q(1)] by (simp add: rootCall_fields)
  have "X \<in> set (childrenOf (c_node q))" using childCalls_node[OF q(2)] c(2) by simp
  from parent_unique[OF d P _ qn this] XP have qP: "c_node q = P" by simp
  with childCalls_fields(9)[OF q(2)] have "c_parentId c = Some (id_node P)" by simp
  with XP c(2) have "\<lparr>edge_id = ''edge-'' @ id_node P @ ''-'' @ id_node X, source = id_node P,
       target = id_node X\<rparr> \<in> set (pushedEdge c)"
    by (simp add: pushedEdge_def)
  with c(1) have "\<lparr>edge_id = ''edge-'' @ id_node P @ ''-'' @ id_node X, source = id_node P,
       target = id_node X\<rparr> \<in> set (snd (convertMindmapToFlow rootNode C))"
    by (auto simp: convertMindmapToFlow_calls)
  then show "\<exists>e\<in>set (snd (convertMindmapToFlow rootNode C)).
                    source e = id_node P \<and> target e = id_node X"
    by (rule bexI[rotated]) simp
next
  fix dsc fn
  assume dsc: "dsc \<in> set (descendantsOf X)"
    and fn: "fn \<in> set (fst (convertMindmapToFlow rootNode C))"
  from fn obtain c where c: "c \<in> set (callsFrom C (rootCall rootNode))" "fn = pushedNode c"
    by (auto simp: convertMindmapToFlow_calls)
  from collapsed_subtree_not_called[of "rootCall rootNode" X C c] d X col c(1)
  have "id_node (c_node c) \<notin> id_node ` set (descendantsOf X)" by (simp add: rootCall_fields)
  with dsc c(2) show "nodeId fn \<noteq> id_node dsc" by (auto simp: pushedNode_def)
next
  fix dsc e
  assume dsc: "dsc \<in> set (descendantsOf X)"
    and e: "e \<in> set (snd (convertMindmapToFlow rootNode C))"
  from edge_ends_called[OF e] obtain c q
    where c: "c \<in> set (callsFrom C (rootCall rootNode))" "target e = id_node (c_node c)"
      and q: "q \<in> set (callsFrom C (rootCall rootNode))" "source e = id_node (c_node q)"
    by blast
  have nb: "id_node (c_node k) \<notin> id_node ` set (descendantsOf X)"
    if "k \<in> set (callsFrom C (rootCall rootNode))" for k
    using collapsed_subtree_not_called[of "rootCall rootNode" X C k] d X col that
    by (simp add: rootCall_fields)
  from nb[OF c(1)] nb[OF q(1)] dsc c(2) q(2)
  show "source e \<noteq> id_node dsc" "target e \<noteq> id_node dsc" by auto
qed

text \<open>With only \<open>b\<close> collapsed in the chain, \<open>b\<close> has a node and the edge from \<open>a\<close>, and
  \<open>e\<close> has neither.\<close>
theorem collapsed_node_layout_witness:
  "distinct (allIds chainTree) \<and>
   chainNodeB \<in> set (nodesOf chainTree) \<and>
   id_node chainNodeB \<in> {''b''} \<and>
   chainNodeA \<in> set (nodesOf chainTree) \<and>
   chainNodeB \<in> set (childrenOf chainNodeA) \<and>
   chainNodeE \<in> set (descendantsOf chainNodeB) \<and>
   (\<exists>fn. fn \<in> set (fst (convertMindmapToFlow chainTree {''b''})) \<and> nodeId fn = ''b'') \<and>
   (\<exists>e. e \<in> set (snd (convertMindmapToFlow chainTree {''b''})) \<and> source e = ''a'' \<and> target e = ''b'') \<and>
   ''e'' \<notin> nodeId ` set (fst (convertMindmapToFlow chainTree {''b''})) \<and>
   ''e'' \<notin> target ` set (snd (convertMindmapToFlow chainTree {''b''}))"
proof -
  have h1: "distinct (allIds chainTree)"
    by (simp add: chainTree_def chainNodeA_def chainNodeB_def chainNodeE_def allIds_def)
  have h2: "chainNodeB \<in> set (nodesOf chainTree)"
    by (simp add: chainTree_def chainNodeA_def chainNodeB_def chainNodeE_def)
  have h3: "id_node chainNodeB \<in> {''b''}" by (simp add: chainNodeB_def)
  have h4: "chainNodeA \<in> set (nodesOf chainTree)"
    by (simp add: chainTree_def chainNodeA_def chainNodeB_def chainNodeE_def)
  have h5: "chainNodeB \<in> set (childrenOf chainNodeA)"
    by (simp add: chainNodeA_def childrenOf_def)
  have h6: "chainNodeE \<in> set (descendantsOf chainNodeB)"
    by (simp add: chainNodeB_def chainNodeE_def descendantsOf_def childrenOf_def)
  have vis: "\<forall>A\<in>set (nodesOf chainTree). chainNodeB \<in> set (descendantsOf A) \<longrightarrow> id_node A \<notin> {''b''}"
    by (simp add: chainTree_def chainNodeA_def chainNodeB_def chainNodeE_def descendantsOf_def
          childrenOf_def)
  have ida: "id_node chainNodeA \<noteq> []" "id_node chainNodeA = ''a''" "id_node chainNodeB = ''b''"
    "id_node chainNodeE = ''e''"
    by (simp_all add: chainNodeA_def chainNodeB_def chainNodeE_def)
  note th = collapsed_node_layout[OF h1 h2 h3]
  from th vis obtain fn where "fn \<in> set (fst (convertMindmapToFlow chainTree {''b''}))"
    "nodeId fn = id_node chainNodeB" by blast
  then have 1: "\<exists>fn. fn \<in> set (fst (convertMindmapToFlow chainTree {''b''})) \<and> nodeId fn = ''b''"
    using ida(3) by auto
  from th vis h4 h5 ida(1) obtain e where "e \<in> set (snd (convertMindmapToFlow chainTree {''b''}))"
    "source e = id_node chainNodeA" "target e = id_node chainNodeB" by blast
  then have 2: "\<exists>e. e \<in> set (snd (convertMindmapToFlow chainTree {''b''})) \<and> source e = ''a'' \<and> target e = ''b''"
    using ida(2,3) by auto
  from th h6 have n3: "\<forall>fn\<in>set (fst (convertMindmapToFlow chainTree {''b''})). nodeId fn \<noteq> id_node chainNodeE"
    by blast
  have "id_node chainNodeE \<notin> nodeId ` set (fst (convertMindmapToFlow chainTree {''b''}))"
  proof
    assume "id_node chainNodeE \<in> nodeId ` set (fst (convertMindmapToFlow chainTree {''b''}))"
    then obtain fn where "fn \<in> set (fst (convertMindmapToFlow chainTree {''b''}))"
      "nodeId fn = id_node chainNodeE" by (auto simp: image_iff)
    with n3 show False by blast
  qed
  then have 3: "''e'' \<notin> nodeId ` set (fst (convertMindmapToFlow chainTree {''b''}))"
    using ida(4) by simp
  from th h6 have n4: "\<forall>e\<in>set (snd (convertMindmapToFlow chainTree {''b''})). target e \<noteq> id_node chainNodeE"
    by blast
  have "id_node chainNodeE \<notin> target ` set (snd (convertMindmapToFlow chainTree {''b''}))"
  proof
    assume "id_node chainNodeE \<in> target ` set (snd (convertMindmapToFlow chainTree {''b''}))"
    then obtain e where "e \<in> set (snd (convertMindmapToFlow chainTree {''b''}))"
      "target e = id_node chainNodeE" by (auto simp: image_iff)
    with n4 show False by blast
  qed
  then have 4: "''e'' \<notin> target ` set (snd (convertMindmapToFlow chainTree {''b''}))"
    using ida(4) by simp
  show ?thesis
    by (intro conjI) (fact h1 h2 h3 h4 h5 h6 1 2 3 4)+
qed

lemma empty_parent_id_no_edge:
  "distinct (allIds emptyRootTree) \<and>
   map nodeId (fst (convertMindmapToFlow emptyRootTree {})) = [[], ''x''] \<and>
   snd (convertMindmapToFlow emptyRootTree {}) = []"
  by (simp add: emptyRootTree_def allIds_def convertMindmapToFlow_def placeNode_def)

section \<open>Radius and level\<close>

lemma levelRadius_pos: "0 < levelRadius L"
  by (simp add: levelRadius_def BASE_RADIUS_def LEVEL_SCALE_def)

lemma levelRadius_decreasing:
  assumes "0 < L1" "L1 < L2"
  shows "levelRadius L2 < levelRadius L1"
proof -
  from assms have "L1 - 1 < L2 - 1" by simp
  then have "LEVEL_SCALE ^ (L2 - 1) < LEVEL_SCALE ^ (L1 - 1)"
    by (rule power_strict_decreasing) (simp_all add: LEVEL_SCALE_def)
  then show ?thesis by (simp add: levelRadius_def BASE_RADIUS_def)
qed

lemma polar_distance:
  assumes "0 \<le> r"
  shows "distance (px + cos a * r, py + sin a * r) (px, py) = r"
proof -
  have "(cos a * r)\<^sup>2 + (sin a * r)\<^sup>2 = ((cos a)\<^sup>2 + (sin a)\<^sup>2) * r\<^sup>2"
    by (simp only: power_mult_distrib distrib_right)
  also have "\<dots> = r\<^sup>2" by simp
  finally have "sqrt ((cos a * r)\<^sup>2 + (sin a * r)\<^sup>2) = r" using assms by simp
  then show ?thesis by (simp add: distance_def)
qed

lemma call_position:
  assumes "0 < c_level c"
  shows "callX c = c_parentX c + cos (callAngle c) * levelRadius (c_level c)"
    and "callY c = c_parentY c + sin (callAngle c) * levelRadius (c_level c)"
  using assms by (simp_all add: callX_def callY_def callAngle_def placeNode_def Let_def levelRadius_def)

lemma call_distance:
  assumes "0 < c_level c"
  shows "distance (callX c, callY c) (c_parentX c, c_parentY c) = levelRadius (c_level c)"
  unfolding call_position[OF assms]
  by (rule polar_distance) (simp add: less_imp_le levelRadius_pos)

lemma pushedNode_position: "flow_x (pushedNode c) = callX c" "flow_y (pushedNode c) = callY c"
  by (simp_all add: pushedNode_def)

lemma positive_level_has_parent:
  assumes "c \<in> set (callsFrom C (rootCall t))" "0 < c_level c"
  shows "\<exists>q\<in>set (callsFrom C (rootCall t)). c \<in> set (childCalls C q)"
proof -
  from assms(2) have "c \<noteq> rootCall t" by (auto simp: rootCall_fields)
  with callsFrom_parent[OF assms(1)] show ?thesis by blast
qed

text \<open>
  C2.  \<open>BASE_RADIUS\<close> is 250 and \<open>LEVEL_SCALE\<close> is 0.85.  The nodes of the layout are the
  nodes that the calls push.  Every call at a level \<open>L > 0\<close> is made by the call for its
  parent, one level up, and the node it pushes is at the distance
  \<open>BASE_RADIUS * LEVEL_SCALE ^ (L - 1)\<close> from the node of its parent.  This radius is
  strictly smaller at a deeper level.
\<close>
theorem radius_per_level:
  "BASE_RADIUS = 250 \<and> LEVEL_SCALE = 85 / 100 \<and>
   fst (convertMindmapToFlow rootNode C) = map pushedNode (callsFrom C (rootCall rootNode)) \<and>
   (\<forall>c\<in>set (callsFrom C (rootCall rootNode)). 0 < c_level c \<longrightarrow>
      (\<exists>q\<in>set (callsFrom C (rootCall rootNode)).
          c \<in> set (childCalls C q) \<and> c_level c = c_level q + 1 \<and>
          c_node c \<in> set (childrenOf (c_node q)) \<and>
          distance (flow_x (pushedNode c), flow_y (pushedNode c))
                   (flow_x (pushedNode q), flow_y (pushedNode q))
            = BASE_RADIUS * LEVEL_SCALE ^ (c_level c - 1))) \<and>
   (\<forall>L1 L2. 0 < L1 \<and> L1 < L2 \<longrightarrow>
      BASE_RADIUS * LEVEL_SCALE ^ (L2 - 1) < BASE_RADIUS * LEVEL_SCALE ^ (L1 - 1))"
proof (intro conjI ballI allI impI)
  show "BASE_RADIUS = 250" by (simp add: BASE_RADIUS_def)
  show "LEVEL_SCALE = 85 / 100" by (simp add: LEVEL_SCALE_def)
  show "fst (convertMindmapToFlow rootNode C) = map pushedNode (callsFrom C (rootCall rootNode))"
    by (simp add: convertMindmapToFlow_calls)
next
  fix c assume c: "c \<in> set (callsFrom C (rootCall rootNode))" "0 < c_level c"
  from positive_level_has_parent[OF c] obtain q
    where q: "q \<in> set (callsFrom C (rootCall rootNode))" "c \<in> set (childCalls C q)" by blast
  note f = childCalls_fields[OF q(2)]
  have "distance (callX c, callY c) (callX q, callY q) = levelRadius (c_level c)"
    using call_distance[OF c(2)] f(5,6) by simp
  then have "distance (flow_x (pushedNode c), flow_y (pushedNode c))
                   (flow_x (pushedNode q), flow_y (pushedNode q))
            = BASE_RADIUS * LEVEL_SCALE ^ (c_level c - 1)"
    by (simp add: pushedNode_position levelRadius_def)
  with q f(2) childCalls_node[OF q(2)]
  show "\<exists>q\<in>set (callsFrom C (rootCall rootNode)).
          c \<in> set (childCalls C q) \<and> c_level c = c_level q + 1 \<and>
          c_node c \<in> set (childrenOf (c_node q)) \<and>
          distance (flow_x (pushedNode c), flow_y (pushedNode c))
                   (flow_x (pushedNode q), flow_y (pushedNode q))
            = BASE_RADIUS * LEVEL_SCALE ^ (c_level c - 1)"
    by blast
next
  fix L1 L2 :: nat assume "0 < L1 \<and> L1 < L2"
  then have "levelRadius L2 < levelRadius L1" by (simp add: levelRadius_decreasing)
  then show "BASE_RADIUS * LEVEL_SCALE ^ (L2 - 1) < BASE_RADIUS * LEVEL_SCALE ^ (L1 - 1)"
    by (simp add: levelRadius_def)
qed

lemma chainCallA_called: "chainCallA \<in> set (callsFrom {} (rootCall chainTree))"
proof -
  have "chainCallA \<in> set (childCalls {} (rootCall chainTree))"
    by (simp add: childCalls_def rootCall_def chainTree_def chainCallA_def childrenOf_def
          callX_def callY_def callAngle_def placeNode_def)
  with callsFrom_self show ?thesis by (rule callsFrom_children)
qed

lemma chainCallA_values: "callX chainCallA = 250" "callY chainCallA = 0" "callAngle chainCallA = 0"
  by (simp_all add: chainCallA_def callX_def callY_def callAngle_def placeNode_def BASE_RADIUS_def)

lemma chainCallB_called: "chainCallB \<in> set (callsFrom {} (rootCall chainTree))"
proof -
  have "chainCallB \<in> set (childCalls {} chainCallA)"
    by (simp add: childCalls_def chainCallA_values)
       (simp add: chainCallA_def chainCallB_def chainNodeA_def childrenOf_def)
  with chainCallA_called show ?thesis by (rule callsFrom_children)
qed

text \<open>In the chain, \<open>b\<close> is at level 2, at the distance 212.5 from \<open>a\<close>; the radius of level
  3 is smaller than that of level 2.\<close>
theorem radius_per_level_witness:
  "chainCallB \<in> set (callsFrom {} (rootCall chainTree)) \<and> 0 < c_level chainCallB \<and>
   (\<exists>q. q \<in> set (callsFrom {} (rootCall chainTree)) \<and> chainCallB \<in> set (childCalls {} q) \<and>
        distance (flow_x (pushedNode chainCallB), flow_y (pushedNode chainCallB))
                 (flow_x (pushedNode q), flow_y (pushedNode q)) = 250 * (85 / 100)) \<and>
   250 * (85 / 100) ^ (3 - 1) < (250 :: real) * (85 / 100) ^ (2 - 1)"
proof -
  note th = radius_per_level[of chainTree "{}"]
  have l: "0 < c_level chainCallB" "c_level chainCallB = 2" by (simp_all add: chainCallB_def)
  from th have B: "BASE_RADIUS = 250" "LEVEL_SCALE = 85 / 100" by simp_all
  from th chainCallB_called l(1) obtain q
    where q: "q \<in> set (callsFrom {} (rootCall chainTree))" "chainCallB \<in> set (childCalls {} q)"
      "distance (flow_x (pushedNode chainCallB), flow_y (pushedNode chainCallB))
                 (flow_x (pushedNode q), flow_y (pushedNode q))
         = BASE_RADIUS * LEVEL_SCALE ^ (c_level chainCallB - 1)"
    by blast
  from q(3) have "distance (flow_x (pushedNode chainCallB), flow_y (pushedNode chainCallB))
                 (flow_x (pushedNode q), flow_y (pushedNode q)) = 250 * (85 / 100)"
    unfolding B l(2) by simp
  with q have 1: "\<exists>q. q \<in> set (callsFrom {} (rootCall chainTree)) \<and> chainCallB \<in> set (childCalls {} q) \<and>
        distance (flow_x (pushedNode chainCallB), flow_y (pushedNode chainCallB))
                 (flow_x (pushedNode q), flow_y (pushedNode q)) = 250 * (85 / 100)"
    by blast
  from th have "(0::nat) < 2 \<and> (2::nat) < 3 \<longrightarrow>
      BASE_RADIUS * LEVEL_SCALE ^ (3 - 1) < BASE_RADIUS * LEVEL_SCALE ^ (2 - 1)" by blast
  then have 2: "250 * (85 / 100) ^ (3 - 1) < (250 :: real) * (85 / 100) ^ (2 - 1)"
    unfolding B by simp
  show ?thesis
    by (intro conjI) (fact chainCallB_called l(1) 1 2)+
qed

section \<open>The fan of the deeper levels\<close>

lemma fanSpan_nonneg: "0 \<le> fanSpan n L"
proof -
  have "0 \<le> real n * MIN_SPACING / levelRadius L"
    using levelRadius_pos[of L] by (simp add: MIN_SPACING_def)
  moreover have "0 \<le> MAX_ANGLE_SPAN" by (simp add: MAX_ANGLE_SPAN_def)
  ultimately show ?thesis by (simp add: fanSpan_def)
qed

lemma fan_angle_single:
  assumes "2 \<le> c_level c" "c_siblingCount c = 1"
  shows "callAngle c = c_parentAngle c"
  using assms by (simp add: callAngle_def placeNode_def Let_def)

lemma fan_angle_many:
  assumes "2 \<le> c_level c" "2 \<le> c_siblingCount c"
  shows "callAngle c =
           (c_parentAngle c - fanSpan (c_siblingCount c) (c_level c) / 2) +
           real (c_index c) * (fanSpan (c_siblingCount c) (c_level c) / real (c_siblingCount c - 1))"
proof -
  from assms(2) have r: "real (c_siblingCount c) - 1 = real (c_siblingCount c - 1)" by simp
  from assms have "callAngle c =
      (c_parentAngle c - fanSpan (c_siblingCount c) (c_level c) / 2) +
      (real (c_index c) / (real (c_siblingCount c) - 1)) * fanSpan (c_siblingCount c) (c_level c)"
    by (simp add: callAngle_def placeNode_def Let_def fanSpan_def levelRadius_def)
  then show ?thesis unfolding r by simp
qed

lemma fan_angle_bounds:
  assumes n: "2 \<le> n" and k: "k < n" and s: "0 \<le> (w::real)"
  shows "lo \<le> lo + real k * (w / real (n - 1))"
    and "lo + real k * (w / real (n - 1)) \<le> lo + w"
proof -
  from n have pos: "0 < real (n - 1)" by simp
  from s pos have st: "0 \<le> w / real (n - 1)" by simp
  have "0 \<le> real k * (w / real (n - 1))"
    using st by (intro mult_nonneg_nonneg) simp_all
  then show "lo \<le> lo + real k * (w / real (n - 1))" by (simp only: le_add_same_cancel1)
  from k have "real k \<le> real (n - 1)" by simp
  with st have "real k * (w / real (n - 1)) \<le> real (n - 1) * (w / real (n - 1))"
    by (intro mult_right_mono)
  also from pos have "real (n - 1) * (w / real (n - 1)) = w" by simp
  finally show "lo + real k * (w / real (n - 1)) \<le> lo + w" by (simp only: add_le_cancel_left)
qed

lemma fan_angle_last:
  assumes "2 \<le> n"
  shows "lo + real (n - 1) * ((w::real) / real (n - 1)) = lo + w"
proof -
  from assms have "0 < real (n - 1)" by simp
  then have "real (n - 1) * (w / real (n - 1)) = w" by simp
  then show ?thesis by (simp only:)
qed

lemma childCalls_indices:
  assumes "c \<in> set (childCalls C q)"
  shows "map c_index (childCalls C q) = [0..<c_siblingCount c]"
proof -
  from assms have o: "id_node (c_node q) \<notin> C" by (rule childCalls_fields(1))
  from assms have n: "c_siblingCount c = length (childrenOf (c_node q))" by (rule childCalls_fields(7))
  from o have "map c_index (childCalls C q) = map (\<lambda>k. k) [0..<length (childrenOf (c_node q))]"
    by (simp add: childCalls_def comp_def)
  with n show ?thesis by simp
qed

lemma child_fan_angle:
  assumes q: "c \<in> set (childCalls C q)" and l: "2 \<le> c_level c"
  shows "(c_siblingCount c = 1 \<longrightarrow> callAngle c = callAngle q) \<and>
         (c_siblingCount c \<noteq> 1 \<longrightarrow>
             callAngle c =
               (callAngle q - fanSpan (c_siblingCount c) (c_level c) / 2) +
               real (c_index c) * (fanSpan (c_siblingCount c) (c_level c) / real (c_siblingCount c - 1)) \<and>
             callAngle q - fanSpan (c_siblingCount c) (c_level c) / 2 \<le> callAngle c \<and>
             callAngle c \<le> callAngle q + fanSpan (c_siblingCount c) (c_level c) / 2 \<and>
             (c_index c = 0 \<longrightarrow>
                callAngle c = callAngle q - fanSpan (c_siblingCount c) (c_level c) / 2) \<and>
             (c_index c = c_siblingCount c - 1 \<longrightarrow>
                callAngle c = callAngle q + fanSpan (c_siblingCount c) (c_level c) / 2))"
proof (intro conjI)
  note f = childCalls_fields[OF q]
  let ?n = "c_siblingCount c"
  let ?span = "fanSpan ?n (c_level c)"
  let ?lo = "callAngle q - ?span / 2"
  have pa: "c_parentAngle c = callAngle q" by (rule f(8))
  have idx: "c_index c < ?n" using f(3,7) by simp
  have single: "callAngle c = callAngle q" if "?n = 1"
    using fan_angle_single[OF l that] pa by simp
  have many: "callAngle c = ?lo + real (c_index c) * (?span / real (?n - 1)) \<and>
             ?lo \<le> callAngle c \<and> callAngle c \<le> callAngle q + ?span / 2 \<and>
             (c_index c = 0 \<longrightarrow> callAngle c = ?lo) \<and>
             (c_index c = ?n - 1 \<longrightarrow> callAngle c = callAngle q + ?span / 2)" if "?n \<noteq> 1"
  proof -
    from that idx have n2: "2 \<le> ?n" by simp
    have eq: "callAngle c = ?lo + real (c_index c) * (?span / real (?n - 1))"
      using fan_angle_many[OF l n2] pa by simp
    have hi: "?lo + ?span = callAngle q + ?span / 2" by simp
    from fan_angle_bounds[OF n2 idx fanSpan_nonneg, of ?lo ?n "c_level c"] eq hi
    have b: "?lo \<le> callAngle c" "callAngle c \<le> callAngle q + ?span / 2" by simp_all
    have z: "c_index c = 0 \<longrightarrow> callAngle c = ?lo" using eq by simp
    have l: "c_index c = ?n - 1 \<longrightarrow> callAngle c = callAngle q + ?span / 2"
      using eq fan_angle_last[OF n2, of ?lo ?span] hi by simp
    show ?thesis
      by (intro conjI) (fact eq b z l)+
  qed
  show "c_siblingCount c = 1 \<longrightarrow> callAngle c = callAngle q"
    using single by (rule impI)
  show "c_siblingCount c \<noteq> 1 \<longrightarrow>
             callAngle c =
               (callAngle q - fanSpan (c_siblingCount c) (c_level c) / 2) +
               real (c_index c) * (fanSpan (c_siblingCount c) (c_level c) / real (c_siblingCount c - 1)) \<and>
             callAngle q - fanSpan (c_siblingCount c) (c_level c) / 2 \<le> callAngle c \<and>
             callAngle c \<le> callAngle q + fanSpan (c_siblingCount c) (c_level c) / 2 \<and>
             (c_index c = 0 \<longrightarrow>
                callAngle c = callAngle q - fanSpan (c_siblingCount c) (c_level c) / 2) \<and>
             (c_index c = c_siblingCount c - 1 \<longrightarrow>
                callAngle c = callAngle q + fanSpan (c_siblingCount c) (c_level c) / 2)"
    using many by (rule impI)
qed

lemma child_position:
  assumes q: "c \<in> set (childCalls C q)"
  shows "flow_x (pushedNode c) = flow_x (pushedNode q) + cos (callAngle c) * levelRadius (c_level c)"
    and "flow_y (pushedNode c) = flow_y (pushedNode q) + sin (callAngle c) * levelRadius (c_level c)"
proof -
  note f = childCalls_fields[OF q]
  from f(2) have l: "0 < c_level c" by simp
  show "flow_x (pushedNode c) = flow_x (pushedNode q) + cos (callAngle c) * levelRadius (c_level c)"
    using call_position(1)[OF l] f(5) by (simp add: pushedNode_position)
  show "flow_y (pushedNode c) = flow_y (pushedNode q) + sin (callAngle c) * levelRadius (c_level c)"
    using call_position(2)[OF l] f(6) by (simp add: pushedNode_position)
qed

lemma called_node_in_layout:
  "c \<in> set (callsFrom C (rootCall rootNode)) \<Longrightarrow>
     pushedNode c \<in> set (fst (convertMindmapToFlow rootNode C))"
  by (simp add: convertMindmapToFlow_calls)

text \<open>
  C3.  \<open>MAX_ANGLE_SPAN\<close> is \<open>1.6 \<pi>\<close> and \<open>MIN_SPACING\<close> is 180, the span of a fan is
  \<open>min (1.6 \<pi>) (siblingCount * 180 / radius)\<close> with the radius of the level, which is
  \<open>250 * 0.85 ^ (level - 1)\<close>, and the nodes of the layout are the nodes that the calls
  push.  Every call \<open>c\<close> at a level of 2 or more is one of the calls of the \<open>forEach\<close> of
  the call \<open>q\<close> for its parent, which have the indices \<open>0, ..., siblingCount - 1\<close>, and \<open>q\<close> is
  one of the calls of the call \<open>p\<close> for the grandparent.  The nodes of \<open>c\<close>, \<open>q\<close> and \<open>p\<close> are
  in the layout; the node of \<open>c\<close> is at the radius of its level from the node of \<open>q\<close> in the
  direction of the angle of \<open>c\<close>, and the node of \<open>q\<close> is at the radius of its level from the
  node of \<open>p\<close> in the direction of the angle of \<open>q\<close>, the parent's angle.  An only child has
  the angle of its parent.  Otherwise the angle is \<open>parentAngle - span / 2\<close> plus the index
  times \<open>span / (siblingCount - 1)\<close>: it lies between \<open>parentAngle - span / 2\<close>, taken at the
  index 0, and \<open>parentAngle + span / 2\<close>, taken at the last index.
\<close>
theorem fan_angles:
  "MAX_ANGLE_SPAN = 1.6 * pi \<and> MIN_SPACING = 180 \<and>
   (\<forall>n L. fanSpan n L = min (1.6 * pi) (real n * 180 / (250 * (85 / 100) ^ (L - 1)))) \<and>
   (\<forall>L. levelRadius L = 250 * (85 / 100) ^ (L - 1)) \<and>
   fst (convertMindmapToFlow rootNode C) = map pushedNode (callsFrom C (rootCall rootNode)) \<and>
   (\<forall>c\<in>set (callsFrom C (rootCall rootNode)). 2 \<le> c_level c \<longrightarrow>
      (\<exists>q\<in>set (callsFrom C (rootCall rootNode)). \<exists>p\<in>set (callsFrom C (rootCall rootNode)).
          c \<in> set (childCalls C q) \<and> q \<in> set (childCalls C p) \<and>
          c_node c = childrenOf (c_node q) ! c_index c \<and>
          originalNode (data (pushedNode c)) = c_node c \<and>
          originalNode (data (pushedNode q)) = c_node q \<and>
          pushedNode c \<in> set (fst (convertMindmapToFlow rootNode C)) \<and>
          pushedNode q \<in> set (fst (convertMindmapToFlow rootNode C)) \<and>
          pushedNode p \<in> set (fst (convertMindmapToFlow rootNode C)) \<and>
          flow_x (pushedNode c) = flow_x (pushedNode q) + cos (callAngle c) * levelRadius (c_level c) \<and>
          flow_y (pushedNode c) = flow_y (pushedNode q) + sin (callAngle c) * levelRadius (c_level c) \<and>
          flow_x (pushedNode q) = flow_x (pushedNode p) + cos (callAngle q) * levelRadius (c_level q) \<and>
          flow_y (pushedNode q) = flow_y (pushedNode p) + sin (callAngle q) * levelRadius (c_level q) \<and>
          c_siblingCount c = length (childrenOf (c_node q)) \<and>
          map c_index (childCalls C q) = [0..<c_siblingCount c] \<and>
          (c_siblingCount c = 1 \<longrightarrow> callAngle c = callAngle q) \<and>
          (c_siblingCount c \<noteq> 1 \<longrightarrow>
             callAngle c =
               (callAngle q - fanSpan (c_siblingCount c) (c_level c) / 2) +
               real (c_index c) * (fanSpan (c_siblingCount c) (c_level c) / real (c_siblingCount c - 1)) \<and>
             callAngle q - fanSpan (c_siblingCount c) (c_level c) / 2 \<le> callAngle c \<and>
             callAngle c \<le> callAngle q + fanSpan (c_siblingCount c) (c_level c) / 2 \<and>
             (c_index c = 0 \<longrightarrow>
                callAngle c = callAngle q - fanSpan (c_siblingCount c) (c_level c) / 2) \<and>
             (c_index c = c_siblingCount c - 1 \<longrightarrow>
                callAngle c = callAngle q + fanSpan (c_siblingCount c) (c_level c) / 2))))"
proof (intro conjI ballI allI impI)
  show "MAX_ANGLE_SPAN = 1.6 * pi" by (simp add: MAX_ANGLE_SPAN_def)
  show "MIN_SPACING = 180" by (simp add: MIN_SPACING_def)
  show "fanSpan n L = min (1.6 * pi) (real n * 180 / (250 * (85 / 100) ^ (L - 1)))" for n L
    by (simp add: fanSpan_def MAX_ANGLE_SPAN_def MIN_SPACING_def levelRadius_def BASE_RADIUS_def
          LEVEL_SCALE_def)
  show "levelRadius L = 250 * (85 / 100) ^ (L - 1)" for L
    by (simp add: levelRadius_def BASE_RADIUS_def LEVEL_SCALE_def)
  show "fst (convertMindmapToFlow rootNode C) = map pushedNode (callsFrom C (rootCall rootNode))"
    by (simp add: convertMindmapToFlow_calls)
next
  fix c assume c: "c \<in> set (callsFrom C (rootCall rootNode))" "2 \<le> c_level c"
  then have "0 < c_level c" by simp
  from positive_level_has_parent[OF c(1) this] obtain q
    where q: "q \<in> set (callsFrom C (rootCall rootNode))" "c \<in> set (childCalls C q)" by blast
  note f = childCalls_fields[OF q(2)]
  from f(2) c(2) have "0 < c_level q" by simp
  from positive_level_has_parent[OF q(1) this] obtain p
    where p: "p \<in> set (callsFrom C (rootCall rootNode))" "q \<in> set (childCalls C p)" by blast
  note ang = child_fan_angle[OF q(2) c(2)]
  show "\<exists>q\<in>set (callsFrom C (rootCall rootNode)). \<exists>p\<in>set (callsFrom C (rootCall rootNode)).
          c \<in> set (childCalls C q) \<and> q \<in> set (childCalls C p) \<and>
          c_node c = childrenOf (c_node q) ! c_index c \<and>
          originalNode (data (pushedNode c)) = c_node c \<and>
          originalNode (data (pushedNode q)) = c_node q \<and>
          pushedNode c \<in> set (fst (convertMindmapToFlow rootNode C)) \<and>
          pushedNode q \<in> set (fst (convertMindmapToFlow rootNode C)) \<and>
          pushedNode p \<in> set (fst (convertMindmapToFlow rootNode C)) \<and>
          flow_x (pushedNode c) = flow_x (pushedNode q) + cos (callAngle c) * levelRadius (c_level c) \<and>
          flow_y (pushedNode c) = flow_y (pushedNode q) + sin (callAngle c) * levelRadius (c_level c) \<and>
          flow_x (pushedNode q) = flow_x (pushedNode p) + cos (callAngle q) * levelRadius (c_level q) \<and>
          flow_y (pushedNode q) = flow_y (pushedNode p) + sin (callAngle q) * levelRadius (c_level q) \<and>
          c_siblingCount c = length (childrenOf (c_node q)) \<and>
          map c_index (childCalls C q) = [0..<c_siblingCount c] \<and>
          (c_siblingCount c = 1 \<longrightarrow> callAngle c = callAngle q) \<and>
          (c_siblingCount c \<noteq> 1 \<longrightarrow>
             callAngle c =
               (callAngle q - fanSpan (c_siblingCount c) (c_level c) / 2) +
               real (c_index c) * (fanSpan (c_siblingCount c) (c_level c) / real (c_siblingCount c - 1)) \<and>
             callAngle q - fanSpan (c_siblingCount c) (c_level c) / 2 \<le> callAngle c \<and>
             callAngle c \<le> callAngle q + fanSpan (c_siblingCount c) (c_level c) / 2 \<and>
             (c_index c = 0 \<longrightarrow>
                callAngle c = callAngle q - fanSpan (c_siblingCount c) (c_level c) / 2) \<and>
             (c_index c = c_siblingCount c - 1 \<longrightarrow>
                callAngle c = callAngle q + fanSpan (c_siblingCount c) (c_level c) / 2))"
  proof (rule bexI[OF _ q(1)], rule bexI[OF _ p(1)], intro conjI)
    show "c \<in> set (childCalls C q)" by (rule q(2))
    show "q \<in> set (childCalls C p)" by (rule p(2))
    show "c_node c = childrenOf (c_node q) ! c_index c" by (rule f(4))
    show "originalNode (data (pushedNode c)) = c_node c" by (simp add: pushedNode_def)
    show "originalNode (data (pushedNode q)) = c_node q" by (simp add: pushedNode_def)
    show "pushedNode c \<in> set (fst (convertMindmapToFlow rootNode C))"
      using c(1) by (rule called_node_in_layout)
    show "pushedNode q \<in> set (fst (convertMindmapToFlow rootNode C))"
      using q(1) by (rule called_node_in_layout)
    show "pushedNode p \<in> set (fst (convertMindmapToFlow rootNode C))"
      using p(1) by (rule called_node_in_layout)
    show "flow_x (pushedNode c) = flow_x (pushedNode q) + cos (callAngle c) * levelRadius (c_level c)"
      using q(2) by (rule child_position(1))
    show "flow_y (pushedNode c) = flow_y (pushedNode q) + sin (callAngle c) * levelRadius (c_level c)"
      using q(2) by (rule child_position(2))
    show "flow_x (pushedNode q) = flow_x (pushedNode p) + cos (callAngle q) * levelRadius (c_level q)"
      using p(2) by (rule child_position(1))
    show "flow_y (pushedNode q) = flow_y (pushedNode p) + sin (callAngle q) * levelRadius (c_level q)"
      using p(2) by (rule child_position(2))
    show "c_siblingCount c = length (childrenOf (c_node q))" by (rule f(7))
    show "map c_index (childCalls C q) = [0..<c_siblingCount c]"
      by (rule childCalls_indices[OF q(2)])
    show "c_siblingCount c = 1 \<longrightarrow> callAngle c = callAngle q"
      using ang by (rule conjunct1)
    show "c_siblingCount c \<noteq> 1 \<longrightarrow>
             callAngle c =
               (callAngle q - fanSpan (c_siblingCount c) (c_level c) / 2) +
               real (c_index c) * (fanSpan (c_siblingCount c) (c_level c) / real (c_siblingCount c - 1)) \<and>
             callAngle q - fanSpan (c_siblingCount c) (c_level c) / 2 \<le> callAngle c \<and>
             callAngle c \<le> callAngle q + fanSpan (c_siblingCount c) (c_level c) / 2 \<and>
             (c_index c = 0 \<longrightarrow>
                callAngle c = callAngle q - fanSpan (c_siblingCount c) (c_level c) / 2) \<and>
             (c_index c = c_siblingCount c - 1 \<longrightarrow>
                callAngle c = callAngle q + fanSpan (c_siblingCount c) (c_level c) / 2)"
      using ang by (rule conjunct2)
  qed
qed

lemma fanCallA_called: "fanCallA \<in> set (callsFrom {} (rootCall fanTree))"
proof -
  have "fanCallA \<in> set (childCalls {} (rootCall fanTree))"
    by (simp add: childCalls_def rootCall_def fanTree_def fanCallA_def childrenOf_def
          callX_def callY_def callAngle_def placeNode_def)
  with callsFrom_self show ?thesis by (rule callsFrom_children)
qed

lemma fanCallA_values: "callX fanCallA = 250" "callY fanCallA = 0" "callAngle fanCallA = 0"
  by (simp_all add: fanCallA_def callX_def callY_def callAngle_def placeNode_def BASE_RADIUS_def)

lemma fanCallC_called: "fanCallC \<in> set (callsFrom {} (rootCall fanTree))"
proof -
  have "\<lparr>c_node = childrenOf (c_node fanCallA) ! 1, c_level = c_level fanCallA + 1, c_index = 1,
      c_parentX = callX fanCallA, c_parentY = callY fanCallA,
      c_siblingCount = length (childrenOf (c_node fanCallA)), c_parentAngle = callAngle fanCallA,
      c_parentId = Some (id_node (c_node fanCallA))\<rparr> \<in> set (childCalls {} fanCallA)"
    by (rule childCalls_expanded) (simp_all add: fanCallA_def fanNodeA_def childrenOf_def)
  moreover have "\<lparr>c_node = childrenOf (c_node fanCallA) ! 1, c_level = c_level fanCallA + 1, c_index = 1,
      c_parentX = callX fanCallA, c_parentY = callY fanCallA,
      c_siblingCount = length (childrenOf (c_node fanCallA)), c_parentAngle = callAngle fanCallA,
      c_parentId = Some (id_node (c_node fanCallA))\<rparr> = fanCallC"
    by (simp add: fanCallA_values) (simp add: fanCallC_def fanCallA_def fanNodeA_def childrenOf_def)
  ultimately have "fanCallC \<in> set (childCalls {} fanCallA)" by simp
  with fanCallA_called show ?thesis by (rule callsFrom_children)
qed

text \<open>In the chain, \<open>b\<close> is an only child at level 2: it has the angle of \<open>a\<close> and its node
  is in the layout, at the radius of level 2 from the node of \<open>a\<close> in that direction.  In the
  fan, \<open>c\<close> is the last of two children at level 2: it is at the upper end of the span.\<close>
theorem fan_angles_witness:
  "chainCallB \<in> set (callsFrom {} (rootCall chainTree)) \<and> 2 \<le> c_level chainCallB \<and>
   c_siblingCount chainCallB = 1 \<and>
   (\<exists>q. q \<in> set (callsFrom {} (rootCall chainTree)) \<and> chainCallB \<in> set (childCalls {} q) \<and>
        callAngle chainCallB = callAngle q \<and>
        pushedNode chainCallB \<in> set (fst (convertMindmapToFlow chainTree {})) \<and>
        pushedNode q \<in> set (fst (convertMindmapToFlow chainTree {})) \<and>
        flow_x (pushedNode chainCallB) =
          flow_x (pushedNode q) + cos (callAngle chainCallB) * levelRadius 2 \<and>
        flow_y (pushedNode chainCallB) =
          flow_y (pushedNode q) + sin (callAngle chainCallB) * levelRadius 2) \<and>
   fanCallC \<in> set (callsFrom {} (rootCall fanTree)) \<and> 2 \<le> c_level fanCallC \<and>
   c_siblingCount fanCallC \<noteq> 1 \<and> c_index fanCallC = c_siblingCount fanCallC - 1 \<and>
   (\<exists>q. q \<in> set (callsFrom {} (rootCall fanTree)) \<and> fanCallC \<in> set (childCalls {} q) \<and>
        callAngle fanCallC = callAngle q + fanSpan 2 2 / 2 \<and>
        pushedNode fanCallC \<in> set (fst (convertMindmapToFlow fanTree {})) \<and>
        flow_x (pushedNode fanCallC) =
          flow_x (pushedNode q) + cos (callAngle fanCallC) * levelRadius 2)"
proof -
  have b: "2 \<le> c_level chainCallB" "c_siblingCount chainCallB = 1" "c_level chainCallB = 2"
    by (simp_all add: chainCallB_def)
  have c: "2 \<le> c_level fanCallC" "c_siblingCount fanCallC \<noteq> 1"
    "c_index fanCallC = c_siblingCount fanCallC - 1"
    "c_siblingCount fanCallC = 2" "c_level fanCallC = 2"
    by (simp_all add: fanCallC_def)
  note calls = conjunct2[OF conjunct2[OF conjunct2[OF conjunct2[OF conjunct2]]]]
  note chain = mp[OF bspec[OF calls[OF fan_angles[where C="{}" and rootNode=chainTree]]
                      chainCallB_called] b(1)]
  note fan = mp[OF bspec[OF calls[OF fan_angles[where C="{}" and rootNode=fanTree]]
                      fanCallC_called] c(1)]
  from chain obtain q where q: "q \<in> set (callsFrom {} (rootCall chainTree))"
      "chainCallB \<in> set (childCalls {} q)"
      "pushedNode chainCallB \<in> set (fst (convertMindmapToFlow chainTree {}))"
      "pushedNode q \<in> set (fst (convertMindmapToFlow chainTree {}))"
      "flow_x (pushedNode chainCallB) =
          flow_x (pushedNode q) + cos (callAngle chainCallB) * levelRadius (c_level chainCallB)"
      "flow_y (pushedNode chainCallB) =
          flow_y (pushedNode q) + sin (callAngle chainCallB) * levelRadius (c_level chainCallB)"
      "c_siblingCount chainCallB = 1 \<longrightarrow> callAngle chainCallB = callAngle q"
    by (elim bexE conjE) (rule that)
  from q(7) b(2) have qa: "callAngle chainCallB = callAngle q" by (rule mp)
  have 1: "\<exists>q. q \<in> set (callsFrom {} (rootCall chainTree)) \<and> chainCallB \<in> set (childCalls {} q) \<and>
        callAngle chainCallB = callAngle q \<and>
        pushedNode chainCallB \<in> set (fst (convertMindmapToFlow chainTree {})) \<and>
        pushedNode q \<in> set (fst (convertMindmapToFlow chainTree {})) \<and>
        flow_x (pushedNode chainCallB) =
          flow_x (pushedNode q) + cos (callAngle chainCallB) * levelRadius 2 \<and>
        flow_y (pushedNode chainCallB) =
          flow_y (pushedNode q) + sin (callAngle chainCallB) * levelRadius 2"
    by (rule exI[of _ q], intro conjI) (fact q(1) q(2) qa q(3) q(4) q(5)[unfolded b(3)] q(6)[unfolded b(3)])+
  from fan obtain r where r: "r \<in> set (callsFrom {} (rootCall fanTree))"
      "fanCallC \<in> set (childCalls {} r)"
      "pushedNode fanCallC \<in> set (fst (convertMindmapToFlow fanTree {}))"
      "flow_x (pushedNode fanCallC) =
          flow_x (pushedNode r) + cos (callAngle fanCallC) * levelRadius (c_level fanCallC)"
      "c_siblingCount fanCallC \<noteq> 1 \<longrightarrow>
         callAngle fanCallC =
               (callAngle r - fanSpan (c_siblingCount fanCallC) (c_level fanCallC) / 2) +
               real (c_index fanCallC) * (fanSpan (c_siblingCount fanCallC) (c_level fanCallC) / real (c_siblingCount fanCallC - 1)) \<and>
             callAngle r - fanSpan (c_siblingCount fanCallC) (c_level fanCallC) / 2 \<le> callAngle fanCallC \<and>
             callAngle fanCallC \<le> callAngle r + fanSpan (c_siblingCount fanCallC) (c_level fanCallC) / 2 \<and>
             (c_index fanCallC = 0 \<longrightarrow>
                callAngle fanCallC = callAngle r - fanSpan (c_siblingCount fanCallC) (c_level fanCallC) / 2) \<and>
             (c_index fanCallC = c_siblingCount fanCallC - 1 \<longrightarrow>
                callAngle fanCallC = callAngle r + fanSpan (c_siblingCount fanCallC) (c_level fanCallC) / 2)"
    by (elim bexE conjE) (rule that)
  from mp[OF r(5) c(2)] have "c_index fanCallC = c_siblingCount fanCallC - 1 \<longrightarrow>
      callAngle fanCallC = callAngle r + fanSpan (c_siblingCount fanCallC) (c_level fanCallC) / 2"
    by (elim conjE)
  from mp[OF this c(3)] have ra: "callAngle fanCallC = callAngle r + fanSpan 2 2 / 2"
    unfolding c(4,5) .
  have 2: "\<exists>q. q \<in> set (callsFrom {} (rootCall fanTree)) \<and> fanCallC \<in> set (childCalls {} q) \<and>
        callAngle fanCallC = callAngle q + fanSpan 2 2 / 2 \<and>
        pushedNode fanCallC \<in> set (fst (convertMindmapToFlow fanTree {})) \<and>
        flow_x (pushedNode fanCallC) =
          flow_x (pushedNode q) + cos (callAngle fanCallC) * levelRadius 2"
    by (rule exI[of _ r], intro conjI) (fact r(1) r(2) ra r(3) r(4)[unfolded c(5)])+
  show ?thesis
    by (intro conjI) (fact chainCallB_called b(1) b(2) 1 fanCallC_called c(1) c(2) c(3) 2)+
qed

section \<open>The circle of the first level\<close>

lemma rootCall_values:
  "callX (rootCall t) = 0" "callY (rootCall t) = 0" "callAngle (rootCall t) = 0"
  by (simp_all add: rootCall_def callX_def callY_def callAngle_def placeNode_def)

lemma level1_angle:
  assumes "c_level c = 1"
  shows "callAngle c = 2 * pi * real (c_index c) / real (c_siblingCount c)"
  using assms by (simp add: callAngle_def placeNode_def Let_def)

lemma level1_position:
  assumes "c_level c = 1" "c_parentX c = 0" "c_parentY c = 0"
  shows "callX c = 250 * cos (callAngle c)" "callY c = 250 * sin (callAngle c)"
  using assms call_position[of c] by (simp_all add: levelRadius_def BASE_RADIUS_def)

text \<open>
  C1.  With an empty collapsed set, the call for the child \<open>k\<close> of a root with \<open>N\<close>
  children is at level 1 and has the angle \<open>2 \<pi> k / N\<close>; the node it pushes is in the
  layout, at \<open>(250 cos (2 \<pi> k / N), 250 sin (2 \<pi> k / N))\<close>, at the distance 250 from the
  origin.  For the document with the root \<open>r\<close> and the children \<open>a\<close>, \<open>b\<close>, \<open>c\<close>, the
  layout has \<open>r\<close> at the origin, \<open>a\<close>, \<open>b\<close>, \<open>c\<close> at the angles \<open>0\<close>, \<open>2 \<pi> / 3\<close>,
  \<open>4 \<pi> / 3\<close> and the radius 250, and exactly the edges from \<open>r\<close> to \<open>a\<close>, \<open>b\<close> and \<open>c\<close>.
\<close>
theorem level1_full_circle:
  "(\<forall>k. k < length (childrenOf rootNode) \<longrightarrow>
      (\<exists>c\<in>set (callsFrom {} (rootCall rootNode)).
          c_node c = childrenOf rootNode ! k \<and> c_level c = 1 \<and> c_index c = k \<and>
          callAngle c = 2 * pi * real k / real (length (childrenOf rootNode)) \<and>
          pushedNode c \<in> set (fst (convertMindmapToFlow rootNode {})) \<and>
          flow_x (pushedNode c) = 250 * cos (2 * pi * real k / real (length (childrenOf rootNode))) \<and>
          flow_y (pushedNode c) = 250 * sin (2 * pi * real k / real (length (childrenOf rootNode))) \<and>
          distance (flow_x (pushedNode c), flow_y (pushedNode c)) (0, 0) = 250)) \<and>
   map (\<lambda>fn. (nodeId fn, flow_x fn, flow_y fn)) (fst (convertMindmapToFlow scenarioTree {})) =
     [(''r'', 0, 0),
      (''a'', 250 * cos 0, 250 * sin 0),
      (''b'', 250 * cos (2 * pi / 3), 250 * sin (2 * pi / 3)),
      (''c'', 250 * cos (4 * pi / 3), 250 * sin (4 * pi / 3))] \<and>
   map (\<lambda>e. (source e, target e)) (snd (convertMindmapToFlow scenarioTree {})) =
     [(''r'', ''a''), (''r'', ''b''), (''r'', ''c'')]"
proof (intro conjI allI impI)
  fix k assume k: "k < length (childrenOf rootNode)"
  let ?N = "length (childrenOf rootNode)"
  let ?q = "rootCall rootNode"
  let ?c = "\<lparr>c_node = childrenOf (c_node ?q) ! k, c_level = c_level ?q + 1, c_index = k,
      c_parentX = callX ?q, c_parentY = callY ?q,
      c_siblingCount = length (childrenOf (c_node ?q)), c_parentAngle = callAngle ?q,
      c_parentId = Some (id_node (c_node ?q))\<rparr>"
  have "?c \<in> set (childCalls {} ?q)"
    by (rule childCalls_expanded) (simp_all add: rootCall_fields k)
  with callsFrom_self have mem: "?c \<in> set (callsFrom {} ?q)" by (rule callsFrom_children)
  have f: "c_node ?c = childrenOf rootNode ! k" "c_level ?c = 1" "c_index ?c = k"
    "c_siblingCount ?c = ?N" "c_parentX ?c = 0" "c_parentY ?c = 0"
    by (simp_all add: rootCall_fields rootCall_values)
  have ang: "callAngle ?c = 2 * pi * real k / real ?N"
    using level1_angle[OF f(2)] f(3,4) by simp
  have pos: "callX ?c = 250 * cos (2 * pi * real k / real ?N)"
    "callY ?c = 250 * sin (2 * pi * real k / real ?N)"
    using level1_position[OF f(2) f(5) f(6)] ang by simp_all
  have out: "pushedNode ?c \<in> set (fst (convertMindmapToFlow rootNode {}))"
    using mem by (simp add: convertMindmapToFlow_calls)
  have "distance (callX ?c, callY ?c) (c_parentX ?c, c_parentY ?c) = levelRadius (c_level ?c)"
    by (rule call_distance) (simp add: f(2))
  then have dist: "distance (callX ?c, callY ?c) (0, 0) = 250"
    unfolding f(2) f(5) f(6) by (simp add: levelRadius_def BASE_RADIUS_def)
  show "\<exists>c\<in>set (callsFrom {} (rootCall rootNode)).
          c_node c = childrenOf rootNode ! k \<and> c_level c = 1 \<and> c_index c = k \<and>
          callAngle c = 2 * pi * real k / real (length (childrenOf rootNode)) \<and>
          pushedNode c \<in> set (fst (convertMindmapToFlow rootNode {})) \<and>
          flow_x (pushedNode c) = 250 * cos (2 * pi * real k / real (length (childrenOf rootNode))) \<and>
          flow_y (pushedNode c) = 250 * sin (2 * pi * real k / real (length (childrenOf rootNode))) \<and>
          distance (flow_x (pushedNode c), flow_y (pushedNode c)) (0, 0) = 250"
  proof (rule bexI[OF _ mem], intro conjI)
    show "c_node ?c = childrenOf rootNode ! k" by (rule f(1))
    show "c_level ?c = 1" by (rule f(2))
    show "c_index ?c = k" by (rule f(3))
    show "callAngle ?c = 2 * pi * real k / real ?N" by (rule ang)
    show "pushedNode ?c \<in> set (fst (convertMindmapToFlow rootNode {}))" by (rule out)
    show "flow_x (pushedNode ?c) = 250 * cos (2 * pi * real k / real ?N)"
      unfolding pushedNode_position by (rule pos(1))
    show "flow_y (pushedNode ?c) = 250 * sin (2 * pi * real k / real ?N)"
      unfolding pushedNode_position by (rule pos(2))
    show "distance (flow_x (pushedNode ?c), flow_y (pushedNode ?c)) (0, 0) = 250"
      unfolding pushedNode_position by (rule dist)
  qed
next
  show "map (\<lambda>fn. (nodeId fn, flow_x fn, flow_y fn)) (fst (convertMindmapToFlow scenarioTree {})) =
     [(''r'', 0, 0),
      (''a'', 250 * cos 0, 250 * sin 0),
      (''b'', 250 * cos (2 * pi / 3), 250 * sin (2 * pi / 3)),
      (''c'', 250 * cos (4 * pi / 3), 250 * sin (4 * pi / 3))]"
    by (simp add: scenarioTree_def convertMindmapToFlow_def placeNode_def BASE_RADIUS_def Let_def
          mult.commute)
  show "map (\<lambda>e. (source e, target e)) (snd (convertMindmapToFlow scenarioTree {})) =
     [(''r'', ''a''), (''r'', ''b''), (''r'', ''c'')]"
    by (simp add: scenarioTree_def convertMindmapToFlow_def placeNode_def Let_def)
qed

text \<open>The child \<open>b\<close> of the scenario document, of index 1 among 3.\<close>
theorem level1_full_circle_witness:
  "1 < length (childrenOf scenarioTree) \<and>
   (\<exists>c. c \<in> set (callsFrom {} (rootCall scenarioTree)) \<and>
        id_node (c_node c) = ''b'' \<and> c_level c = 1 \<and>
        callAngle c = 2 * pi * 1 / 3 \<and>
        pushedNode c \<in> set (fst (convertMindmapToFlow scenarioTree {})) \<and>
        distance (flow_x (pushedNode c), flow_y (pushedNode c)) (0, 0) = 250)"
proof -
  have n: "length (childrenOf scenarioTree) = 3" "1 < length (childrenOf scenarioTree)"
    "id_node (childrenOf scenarioTree ! 1) = ''b''"
    by (simp_all add: scenarioTree_def childrenOf_def)
  from level1_full_circle[of scenarioTree] n(2) obtain c
    where c: "c \<in> set (callsFrom {} (rootCall scenarioTree))"
      "c_node c = childrenOf scenarioTree ! 1" "c_level c = 1"
      "callAngle c = 2 * pi * real 1 / real (length (childrenOf scenarioTree))"
      "pushedNode c \<in> set (fst (convertMindmapToFlow scenarioTree {}))"
      "distance (flow_x (pushedNode c), flow_y (pushedNode c)) (0, 0) = 250"
    by blast
  from c(2) n(3) have i: "id_node (c_node c) = ''b''" by simp
  from c(4) n(1) have a: "callAngle c = 2 * pi * 1 / 3" by simp
  from c(1) i c(3) a c(5) c(6)
  have "\<exists>c. c \<in> set (callsFrom {} (rootCall scenarioTree)) \<and>
        id_node (c_node c) = ''b'' \<and> c_level c = 1 \<and>
        callAngle c = 2 * pi * 1 / 3 \<and>
        pushedNode c \<in> set (fst (convertMindmapToFlow scenarioTree {})) \<and>
        distance (flow_x (pushedNode c), flow_y (pushedNode c)) (0, 0) = 250"
    by blast
  with n(2) show ?thesis by (rule conjI)
qed

end
